theory Spec2Isabelle
  imports Main "HOL-Library.Sublist"
begin

section \<open>idasync: one-way folder synchronisation\<close>

text \<open>
  A shallow embedding of \<^verbatim>\<open>src/index.js\<close> (class \<^verbatim>\<open>IdaSync\<close>). The pattern
  matcher is embedded first, together with the part of the JavaScript regular-expression
  engine it relies on; the file-system operations and the synchronisation itself follow.

  Strings are lists of 8-bit characters. Case folding is the ASCII one, so the model is
  exact for ASCII paths and patterns; characters outside ASCII are compared as they are.
  Paths are POSIX paths: the separator is the forward slash.
\<close>

subsection \<open>Regular expressions, as \<^verbatim>\<open>new RegExp(source, 'i')\<close> reads them\<close>

text \<open>
  \<^verbatim>\<open>matchesPattern\<close> builds the source text of a regular expression and hands it to
  \<^verbatim>\<open>new RegExp\<close>, which throws a SyntaxError on a malformed source. The engine is not
  code of the repository; it is modelled after the ECMAScript grammar (with the Annex B
  extensions that apply without the \<^verbatim>\<open>u\<close> flag): disjunction, groups, the assertions
  \<^verbatim>\<open>^\<close> and \<^verbatim>\<open>$\<close>, the quantifiers \<^verbatim>\<open>* + ? {n} {n,} {n,m}\<close>, character classes with
  ranges and negation, the dot, and identity escapes. Escapes that start with a letter or
  a digit and group specifiers \<^verbatim>\<open>(?...)\<close> are outside the model (\<open>OutOfModel\<close>); the
  source texts \<^verbatim>\<open>matchesPattern\<close> builds never hold either, since it rewrites every
  backslash and every question mark of a pattern.
\<close>

datatype regex_error = SyntaxError | OutOfModel

datatype class_item = Single char | Range char char

datatype regex =
    Eps
  | Chr char
  | Dot
  | Cls bool "class_item list"
  | Bol
  | Eol
  | Seq regex regex
  | Alt regex regex
  | Rep nat "nat option" regex

datatype token =
    TChar char
  | TDot
  | TClass bool "class_item list"
  | TBol
  | TEol
  | TOpen
  | TClose
  | TBar
  | TQuant nat "nat option"
  | TQuest

definition backslash :: char where
  "backslash = CHR 0x5C"

definition is_alnum :: "char \<Rightarrow> bool" where
  "is_alnum c = (c \<in> set ''abcdefghijklmnopqrstuvwxyzABCDEFGHIJKLMNOPQRSTUVWXYZ0123456789'')"

definition is_digit :: "char \<Rightarrow> bool" where
  "is_digit c = (c \<in> set ''0123456789'')"

definition decimal :: "string \<Rightarrow> nat" where
  "decimal ds = foldl (\<lambda>a d. 10 * a + (of_char d - 48)) 0 ds"

text \<open>
  The canonical form under which the \<^verbatim>\<open>i\<close> flag compares characters: the upper-case
  letter for an ASCII letter, the character itself otherwise.
\<close>

definition canonicalize :: "char \<Rightarrow> char" where
  "canonicalize c =
     (case map_of (zip ''abcdefghijklmnopqrstuvwxyz'' ''ABCDEFGHIJKLMNOPQRSTUVWXYZ'') c of
        Some u \<Rightarrow> u
      | None \<Rightarrow> c)"

text \<open>
  One character of the source, or an escaped one. An escaped character that is neither
  letter nor digit stands for itself; a backslash at the end is a syntax error.
\<close>

definition read_atom :: "string \<Rightarrow> regex_error + (char \<times> string)" where
  "read_atom cs =
     (case cs of
        [] \<Rightarrow> Inl SyntaxError
      | c # r \<Rightarrow>
          if c = backslash then
            (case r of
               [] \<Rightarrow> Inl SyntaxError
             | d # r' \<Rightarrow> if is_alnum d then Inl OutOfModel else Inr (d, r'))
          else Inr (c, r))"

lemma read_atom_shorter: "read_atom cs = Inr (a, r) \<Longrightarrow> length r < length cs"
  by (auto simp: read_atom_def split: list.splits if_splits)

text \<open>
  The items of a character class up to the closing bracket: single characters and ranges
  \<^verbatim>\<open>a-b\<close>. A range out of order and a class that is not closed are syntax errors.
\<close>

function class_items :: "class_item list \<Rightarrow> string \<Rightarrow> regex_error + (class_item list \<times> string)" where
  "class_items acc cs =
     (case cs of
        [] \<Rightarrow> Inl SyntaxError
      | c # cs' \<Rightarrow>
          if c = CHR '']'' then Inr (rev acc, cs')
          else
            (case read_atom cs of
               Inl e \<Rightarrow> Inl e
             | Inr (a, r) \<Rightarrow>
                 (case r of
                    d # e # r' \<Rightarrow>
                      if d = CHR ''-'' \<and> e \<noteq> CHR '']'' then
                        (case read_atom (e # r') of
                           Inl err \<Rightarrow> Inl err
                         | Inr (b, r'') \<Rightarrow>
                             if (of_char b :: nat) < of_char a then Inl SyntaxError
                             else class_items (Range a b # acc) r'')
                      else class_items (Single a # acc) r
                  | _ \<Rightarrow> class_items (Single a # acc) r)))"
  by pat_completeness auto
termination
  apply (relation "measure (\<lambda>(acc, cs). length cs)")
  apply (auto dest!: read_atom_shorter)
  done

declare class_items.simps [simp del]

text \<open>
  A braced quantifier \<^verbatim>\<open>{n}\<close>, \<^verbatim>\<open>{n,}\<close> or \<^verbatim>\<open>{n,m}\<close> after the opening brace, with
  the rest of the source; \<open>None\<close> when the text is not of that form, in which case the
  brace is an ordinary character.
\<close>

definition braced :: "string \<Rightarrow> (nat \<times> nat option \<times> string) option" where
  "braced cs =
     (let ds = takeWhile is_digit cs; r = dropWhile is_digit cs in
      if ds = [] then None
      else
        (case r of
           [] \<Rightarrow> None
         | c # r1 \<Rightarrow>
             if c = CHR ''}'' then Some (decimal ds, Some (decimal ds), r1)
             else if c = CHR '','' then
               (case r1 of
                  [] \<Rightarrow> None
                | c' # r2 \<Rightarrow>
                    if c' = CHR ''}'' then Some (decimal ds, None, r2)
                    else
                      (let ds' = takeWhile is_digit r1; r3 = dropWhile is_digit r1 in
                       if ds' = [] then None
                       else
                         (case r3 of
                            [] \<Rightarrow> None
                          | c'' # r4 \<Rightarrow>
                              if c'' = CHR ''}'' then Some (decimal ds, Some (decimal ds'), r4)
                              else None)))
             else None))"

lemma dropWhile_shorter: "length (dropWhile P xs) \<le> length xs"
  by (induction xs) auto



lemma braced_shorter: "braced cs = Some (n, m, r) \<Longrightarrow> length r < length cs"
proof -
  assume a: "braced cs = Some (n, m, r)"
  have d: "\<And>xs. length (dropWhile is_digit xs) \<le> length xs" by (rule dropWhile_shorter)
  have e: "\<And>x xs ys. dropWhile is_digit xs = x # ys \<Longrightarrow> length ys < length xs"
    using d by (metis Suc_le_lessD length_Cons)
  from a show ?thesis
    by (auto simp: braced_def Let_def split: list.splits if_splits dest!: e)
qed

lemma class_items_shorter: "class_items acc cs = Inr (items, r) \<Longrightarrow> length r < length cs"
proof (induction "length cs" arbitrary: cs acc rule: less_induct)
  case less
  have step: "length r < k"
    if "class_items acc' cs' = Inr (items, r)" and "length cs' < length cs" and "length cs \<le> k" for acc' cs' k
    using less.hyps [of cs' acc'] that by simp
  from less.prems show ?case
    apply (subst (asm) class_items.simps)
    apply (auto split: list.splits if_splits sum.splits dest!: read_atom_shorter)
    apply (erule step; simp)+
    done
qed

text \<open>The first token of a source text and the rest of the text.\<close>

definition next_token :: "string \<Rightarrow> regex_error + (token \<times> string)" where
  "next_token cs =
     (case cs of
        [] \<Rightarrow> Inl SyntaxError
      | c # r \<Rightarrow>
          if c = backslash then
            (case read_atom cs of
               Inl e \<Rightarrow> Inl e
             | Inr (a, r') \<Rightarrow> Inr (TChar a, r'))
          else if c = CHR ''['' then
            (case r of
               [] \<Rightarrow> Inl SyntaxError
             | d # r' \<Rightarrow>
                 (case (if d = CHR ''^'' then class_items [] r' else class_items [] r) of
                    Inl e \<Rightarrow> Inl e
                  | Inr (items, r'') \<Rightarrow> Inr (TClass (d = CHR ''^'') items, r'')))
          else if c = CHR ''{'' then
            (case braced r of
               None \<Rightarrow> Inr (TChar c, r)
             | Some (lo, hi, r') \<Rightarrow>
                 if (case hi of None \<Rightarrow> False | Some h \<Rightarrow> h < lo) then Inl SyntaxError
                 else Inr (TQuant lo hi, r'))
          else
            Inr (if c = CHR ''.'' then TDot
                 else if c = CHR ''^'' then TBol
                 else if c = CHR ''$'' then TEol
                 else if c = CHR ''('' then TOpen
                 else if c = CHR '')'' then TClose
                 else if c = CHR ''|'' then TBar
                 else if c = CHR ''*'' then TQuant 0 None
                 else if c = CHR ''+'' then TQuant 1 None
                 else if c = CHR ''?'' then TQuest
                 else TChar c, r))"

lemma next_token_shorter: "next_token cs = Inr (t, r) \<Longrightarrow> length r < length cs"
  unfolding next_token_def
  by (auto split: list.splits if_splits sum.splits option.splits
      dest!: read_atom_shorter class_items_shorter braced_shorter)

function lex :: "string \<Rightarrow> regex_error + token list" where
  "lex cs =
     (if cs = [] then Inr []
      else
        (case next_token cs of
           Inl e \<Rightarrow> Inl e
         | Inr (t, r) \<Rightarrow> (case lex r of Inl e \<Rightarrow> Inl e | Inr ts \<Rightarrow> Inr (t # ts))))"
  by pat_completeness auto
termination
  by (relation "measure length") (auto dest!: next_token_shorter)

declare lex.simps [simp del]

text \<open>
  The parser reads the tokens from left to right. It keeps the alternatives and the terms
  of the disjunction it is in (latest first), those of the enclosing groups on a stack,
  and whether the latest term is an atom that may take a quantifier, or a quantified term
  that may take the question mark of a lazy quantifier. A quantifier with nothing to
  repeat, an unmatched parenthesis and a group left open are syntax errors.
\<close>

datatype qstate = NoAtom | Atom | Quantified

definition conc :: "regex list \<Rightarrow> regex" where
  "conc ts = foldl (\<lambda>acc t. Seq t acc) Eps ts"

definition disj :: "regex list \<Rightarrow> regex list \<Rightarrow> regex" where
  "disj alts ts = foldl (\<lambda>acc a. Alt a acc) (conc ts) alts"

fun parse :: "qstate \<Rightarrow> bool \<Rightarrow> (regex list \<times> regex list) list \<Rightarrow> regex list \<Rightarrow> regex list
    \<Rightarrow> token list \<Rightarrow> regex_error + regex" where
  "parse q opened fs alts ts [] = (if fs = [] then Inr (disj alts ts) else Inl SyntaxError)"
| "parse q opened fs alts ts (TChar c # toks) = parse Atom False fs alts (Chr c # ts) toks"
| "parse q opened fs alts ts (TDot # toks) = parse Atom False fs alts (Dot # ts) toks"
| "parse q opened fs alts ts (TClass neg items # toks) = parse Atom False fs alts (Cls neg items # ts) toks"
| "parse q opened fs alts ts (TBol # toks) = parse NoAtom False fs alts (Bol # ts) toks"
| "parse q opened fs alts ts (TEol # toks) = parse NoAtom False fs alts (Eol # ts) toks"
| "parse q opened fs alts ts (TOpen # toks) = parse NoAtom True ((alts, ts) # fs) [] [] toks"
| "parse q opened fs alts ts (TClose # toks) =
     (case fs of
        [] \<Rightarrow> Inl SyntaxError
      | (alts', ts') # fs' \<Rightarrow> parse Atom False fs' alts' (disj alts ts # ts') toks)"
| "parse q opened fs alts ts (TBar # toks) = parse NoAtom False fs (conc ts # alts) [] toks"
| "parse q opened fs alts ts (TQuant lo hi # toks) =
     (case ts of
        t # ts' \<Rightarrow>
          if q = Atom then parse Quantified False fs alts (Rep lo hi t # ts') toks
          else Inl SyntaxError
      | [] \<Rightarrow> Inl SyntaxError)"
| "parse q opened fs alts ts (TQuest # toks) =
     (if opened then Inl OutOfModel
      else if q = Quantified then parse NoAtom False fs alts ts toks
      else
        (case ts of
           t # ts' \<Rightarrow>
             if q = Atom then parse Quantified False fs alts (Rep 0 (Some 1) t # ts') toks
             else Inl SyntaxError
         | [] \<Rightarrow> Inl SyntaxError))"

definition RegExp_new :: "string \<Rightarrow> regex_error + regex" where
  "RegExp_new src =
     (case lex src of
        Inl e \<Rightarrow> Inl e
      | Inr toks \<Rightarrow> parse NoAtom False [] [] [] toks)"

text \<open>
  Matching. \<open>ends r (n, s)\<close> lists the positions at which a match of \<open>r\<close> that starts after
  \<open>n\<close> characters, with \<open>s\<close> still to read, can end. Without back references and
  lookaround a position says all there is to say about a state of the backtracking
  matcher, so the list is empty exactly when the matcher fails. \<^verbatim>\<open>test\<close> tries every
  start position; \<^verbatim>\<open>^\<close> holds only at the start of the input and \<^verbatim>\<open>$\<close> only at its end,
  the flag \<^verbatim>\<open>m\<close> being absent.
\<close>

definition chars_between :: "char \<Rightarrow> char \<Rightarrow> char list" where
  "chars_between a b = map char_of [of_char a ..< Suc (of_char b)]"

fun item_has :: "class_item \<Rightarrow> char \<Rightarrow> bool" where
  "item_has (Single a) c = (canonicalize a = canonicalize c)"
| "item_has (Range a b) c = list_ex (\<lambda>d. canonicalize d = canonicalize c) (chars_between a b)"

primrec exactly :: "('a \<Rightarrow> 'a list) \<Rightarrow> nat \<Rightarrow> 'a list \<Rightarrow> 'a list" where
  "exactly f 0 xs = xs"
| "exactly f (Suc k) xs = exactly f k (concat (map f xs))"

primrec upto_iters :: "('a \<Rightarrow> 'a list) \<Rightarrow> nat \<Rightarrow> 'a list \<Rightarrow> 'a list" where
  "upto_iters f 0 xs = xs"
| "upto_iters f (Suc k) xs = xs @ upto_iters f k (concat (map f xs))"

fun ends :: "regex \<Rightarrow> nat \<times> string \<Rightarrow> (nat \<times> string) list" where
  "ends Eps x = [x]"
| "ends (Chr c) (n, s) =
     (case s of [] \<Rightarrow> [] | d # ds \<Rightarrow> if canonicalize d = canonicalize c then [(Suc n, ds)] else [])"
| "ends Dot (n, s) =
     (case s of [] \<Rightarrow> [] | d # ds \<Rightarrow> if d = CHR 0x0A \<or> d = CHR 0x0D then [] else [(Suc n, ds)])"
| "ends (Cls neg items) (n, s) =
     (case s of [] \<Rightarrow> [] | d # ds \<Rightarrow> if list_ex (\<lambda>i. item_has i d) items \<noteq> neg then [(Suc n, ds)] else [])"
| "ends Bol (n, s) = (if n = 0 then [(n, s)] else [])"
| "ends Eol (n, s) = (if s = [] then [(n, s)] else [])"
| "ends (Seq a b) x = concat (map (ends b) (ends a x))"
| "ends (Alt a b) x = ends a x @ ends b x"
| "ends (Rep lo hi r) (n, s) =
     upto_iters (ends r) (case hi of None \<Rightarrow> length s | Some h \<Rightarrow> h - lo)
       (exactly (ends r) lo [(n, s)])"

definition RegExp_test :: "regex \<Rightarrow> string \<Rightarrow> bool" where
  "RegExp_test r s = list_ex (\<lambda>i. ends r (i, drop i s) \<noteq> []) [0..<Suc (length s)]"

subsection \<open>The pattern matcher\<close>

text \<open>
  \<^verbatim>\<open>matchesPattern(filePath, patterns)\<close>, lines 28 to 51. \<open>replace_all\<close> is
  \<^verbatim>\<open>String.prototype.replace\<close> with a global one-character expression; \<open>regexPattern\<close>
  is the chain of the four replacements in the order of the source; \<open>basename\<close> is
  \<^verbatim>\<open>path.basename\<close> of POSIX, which drops trailing slashes and keeps what follows the last
  remaining one. \<open>matches_one\<close> is the body of the callback of \<^verbatim>\<open>some\<close>: the expression
  is compiled first, so a malformed pattern throws whatever the path is, and the test for
  a forward slash is made on the pattern as given. \<open>some_pattern\<close> is \<^verbatim>\<open>some\<close>: it stops
  at the first pattern that matches and throws at the first that does not compile, if it
  gets that far. An absent list is \<open>None\<close>.
\<close>

definition replace_all :: "char \<Rightarrow> string \<Rightarrow> string \<Rightarrow> string" where
  "replace_all c rep s = concat (map (\<lambda>x. if x = c then rep else [x]) s)"

definition regexPattern :: "string \<Rightarrow> string" where
  "regexPattern pattern =
     replace_all CHR ''?'' ''[^/]''
       (replace_all CHR ''*'' ''[^/]*''
         (replace_all CHR ''.'' [backslash, CHR ''.'']
           (replace_all backslash ''/'' pattern)))"

definition basename :: "string \<Rightarrow> string" where
  "basename p = rev (takeWhile (\<lambda>c. c \<noteq> CHR ''/'') (dropWhile (\<lambda>c. c = CHR ''/'') (rev p)))"

definition matches_one :: "string \<Rightarrow> string \<Rightarrow> regex_error + bool" where
  "matches_one filePath pattern =
     (let fileName = basename filePath;
          normalizedPath = replace_all backslash ''/'' filePath
      in case RegExp_new (''^'' @ regexPattern pattern @ ''$'') of
           Inl e \<Rightarrow> Inl e
         | Inr regex \<Rightarrow>
             Inr (if CHR ''/'' \<in> set pattern then RegExp_test regex normalizedPath
                  else RegExp_test regex fileName))"

fun some_pattern :: "string \<Rightarrow> string list \<Rightarrow> regex_error + bool" where
  "some_pattern filePath [] = Inr False"
| "some_pattern filePath (pattern # patterns) =
     (case matches_one filePath pattern of
        Inl e \<Rightarrow> Inl e
      | Inr True \<Rightarrow> Inr True
      | Inr False \<Rightarrow> some_pattern filePath patterns)"

definition matchesPattern :: "string \<Rightarrow> string list option \<Rightarrow> regex_error + bool" where
  "matchesPattern filePath patterns =
     (case patterns of
        None \<Rightarrow> Inr False
      | Some ps \<Rightarrow> if ps = [] then Inr False else some_pattern filePath ps)"



subsection \<open>The file system\<close>

text \<open>
  The source tree and the destination tree are two separate trees of regular files and
  directories; a tree that does not exist is \<open>None\<close>. So the model covers calls whose
  source and destination do not overlap, and file systems without symbolic links, devices
  and other entries for which both \<^verbatim>\<open>isDirectory()\<close> and \<^verbatim>\<open>isFile()\<close> are false (the
  walkers skip such entries). A regular file has a content, a modification time and an
  access time; its size is the length of the content. A directory has a flag that says
  whether it can be listed (when not, \<^verbatim>\<open>readdir\<close> raises EACCES), the attributes that
  \<^verbatim>\<open>stat\<close> reports for it, and its entries in the order in which \<^verbatim>\<open>readdir\<close> returns
  them. Times are integers. The attributes of a directory do not change when its entries
  do. A new file or directory gets the time \<open>now\<close> of the call.

  A path is the list of its segments, relative to the root of its tree; \<open>render\<close> is the
  string the code holds, which \<^verbatim>\<open>path.relative\<close> builds by joining the segments with
  the separator. \<^verbatim>\<open>path.join(root, relativeFile)\<close> splits that string at the separators
  again; the names of entries hold no separator, so the segments are the same and the
  model addresses the tree by the list itself. Likewise the set of source files is a set
  of such lists.

  The operations of \<^verbatim>\<open>fs.promises\<close> return the error code or the new tree. \<open>alter\<close>
  walks to a path and replaces what is there; with \<open>Some st\<close> as first argument it creates
  the directories missing on the way, as \<^verbatim>\<open>mkdir\<close> with \<^verbatim>\<open>recursive: true\<close> does, and
  with \<open>None\<close> a missing directory on the way is ENOENT.
\<close>

datatype errno = ENOENT | ENOTDIR | EACCES | EEXIST | EISDIR | ENOTEMPTY

record stats =
  st_mtime :: int
  st_atime :: int
  st_size :: nat

datatype node =
    File string int int
  | Dir bool stats "(string \<times> node) list"

type_synonym path = "string list"
type_synonym tree = "node option"

fun render :: "path \<Rightarrow> string" where
  "render [] = []"
| "render [name] = name"
| "render (name # rest) = name @ ''/'' @ render rest"

definition node_stats :: "node \<Rightarrow> stats" where
  "node_stats n =
     (case n of
        File c m a \<Rightarrow> \<lparr>st_mtime = m, st_atime = a, st_size = length c\<rparr>
      | Dir l st es \<Rightarrow> st)"

fun lookup :: "tree \<Rightarrow> path \<Rightarrow> errno + node" where
  "lookup None p = Inl ENOENT"
| "lookup (Some n) [] = Inr n"
| "lookup (Some (File c m a)) (x # p) = Inl ENOTDIR"
| "lookup (Some (Dir l st es)) (x # p) = lookup (map_of es x) p"

definition stat :: "tree \<Rightarrow> path \<Rightarrow> errno + stats" where
  "stat t p = (case lookup t p of Inl e \<Rightarrow> Inl e | Inr n \<Rightarrow> Inr (node_stats n))"

definition access :: "tree \<Rightarrow> path \<Rightarrow> errno + unit" where
  "access t p = (case lookup t p of Inl e \<Rightarrow> Inl e | Inr n \<Rightarrow> Inr ())"

definition readdir :: "tree \<Rightarrow> path \<Rightarrow> errno + string list" where
  "readdir t p =
     (case lookup t p of
        Inl e \<Rightarrow> Inl e
      | Inr (File c m a) \<Rightarrow> Inl ENOTDIR
      | Inr (Dir l st es) \<Rightarrow> if l then Inr (map fst es) else Inl EACCES)"

fun put_entry :: "(string \<times> node) list \<Rightarrow> string \<Rightarrow> tree \<Rightarrow> (string \<times> node) list" where
  "put_entry es x None = filter (\<lambda>e. fst e \<noteq> x) es"
| "put_entry es x (Some n) =
     (if x \<in> fst ` set es then map (\<lambda>e. if fst e = x then (x, n) else e) es
      else es @ [(x, n)])"

fun alter :: "stats option \<Rightarrow> (tree \<Rightarrow> errno + tree) \<Rightarrow> tree \<Rightarrow> path \<Rightarrow> errno + tree" where
  "alter fill f t [] = f t"
| "alter fill f None (x # p) =
     (case fill of
        None \<Rightarrow> Inl ENOENT
      | Some st \<Rightarrow>
          (case alter fill f None p of
             Inl e \<Rightarrow> Inl e
           | Inr t' \<Rightarrow> Inr (Some (Dir True st (put_entry [] x t')))))"
| "alter fill f (Some (File c m a)) (x # p) = Inl ENOTDIR"
| "alter fill f (Some (Dir l st es)) (x # p) =
     (case alter fill f (map_of es x) p of
        Inl e \<Rightarrow> Inl e
      | Inr t' \<Rightarrow> Inr (Some (Dir l st (put_entry es x t'))))"

definition new_stats :: "int \<Rightarrow> stats" where
  "new_stats now = \<lparr>st_mtime = now, st_atime = now, st_size = 0\<rparr>"

definition mkdir_recursive :: "int \<Rightarrow> tree \<Rightarrow> path \<Rightarrow> errno + tree" where
  "mkdir_recursive now t p =
     alter (Some (new_stats now))
       (\<lambda>c. case c of
               None \<Rightarrow> Inr (Some (Dir True (new_stats now) []))
             | Some (File _ _ _) \<Rightarrow> Inl EEXIST
             | Some (Dir l st es) \<Rightarrow> Inr (Some (Dir l st es)))
       t p"

definition fs_copyFile :: "int \<Rightarrow> tree \<Rightarrow> path \<Rightarrow> tree \<Rightarrow> path \<Rightarrow> errno + tree" where
  "fs_copyFile now src sp dst dp =
     (case lookup src sp of
        Inl e \<Rightarrow> Inl e
      | Inr (Dir l st es) \<Rightarrow> Inl EISDIR
      | Inr (File c m a) \<Rightarrow>
          alter None
            (\<lambda>t. case t of
                    None \<Rightarrow> Inr (Some (File c now now))
                  | Some (File c' m' a') \<Rightarrow> Inr (Some (File c now a'))
                  | Some (Dir l st es) \<Rightarrow> Inl EISDIR)
            dst dp)"

definition utimes :: "tree \<Rightarrow> path \<Rightarrow> int \<Rightarrow> int \<Rightarrow> errno + tree" where
  "utimes t p atime mtime =
     alter None
       (\<lambda>c. case c of
               None \<Rightarrow> Inl ENOENT
             | Some (File content m a) \<Rightarrow> Inr (Some (File content mtime atime))
             | Some (Dir l st es) \<Rightarrow> Inr (Some (Dir l (st\<lparr>st_mtime := mtime, st_atime := atime\<rparr>) es)))
       t p"

definition unlink :: "tree \<Rightarrow> path \<Rightarrow> errno + tree" where
  "unlink t p =
     alter None
       (\<lambda>c. case c of
               None \<Rightarrow> Inl ENOENT
             | Some (File content m a) \<Rightarrow> Inr None
             | Some (Dir l st es) \<Rightarrow> Inl EISDIR)
       t p"

definition rmdir :: "tree \<Rightarrow> path \<Rightarrow> errno + tree" where
  "rmdir t p =
     alter None
       (\<lambda>c. case c of
               None \<Rightarrow> Inl ENOENT
             | Some (File content m a) \<Rightarrow> Inl ENOTDIR
             | Some (Dir l st es) \<Rightarrow> if es = [] then Inr None else Inl ENOTEMPTY)
       t p"

subsection \<open>The class \<^verbatim>\<open>IdaSync\<close>\<close>

text \<open>
  The constructor, lines 16 to 20: an option that is absent takes its default. The calls
  of \<^verbatim>\<open>log\<close> write to the console and change neither the file system nor the result;
  the model leaves them out.
\<close>

record options =
  opt_copyExclusions :: "string list option"
  opt_deleteExclusions :: "string list option"
  opt_verbose :: "bool option"

record config =
  copyExclusions :: "string list"
  deleteExclusions :: "string list"
  verbose :: bool

definition IdaSync :: "options \<Rightarrow> config" where
  "IdaSync opts =
     \<lparr>copyExclusions = (case opt_copyExclusions opts of None \<Rightarrow> [] | Some ps \<Rightarrow> ps),
      deleteExclusions = (case opt_deleteExclusions opts of None \<Rightarrow> [] | Some ps \<Rightarrow> ps),
      verbose = (case opt_verbose opts of None \<Rightarrow> False | Some v \<Rightarrow> v)\<rparr>"

text \<open>
  \<^verbatim>\<open>getFilesRecursively\<close>, lines 59 to 83. The recursion into \<^verbatim>\<open>fullPath\<close> is the
  recursion into the node of the entry. \<open>files_of_entries\<close> is the loop over the entries;
  an error of a recursive call leaves the loop and the collected files are lost. The
  \<^verbatim>\<open>catch\<close> lets one error pass, ENOENT, which only the \<^verbatim>\<open>readdir\<close> of a root that does
  not exist raises.
\<close>

fun files_in :: "node \<Rightarrow> path \<Rightarrow> errno + path list"
  and files_of_entries :: "(string \<times> node) list \<Rightarrow> path \<Rightarrow> errno + path list" where
  "files_in (File c m a) dirPath = Inl ENOTDIR"
| "files_in (Dir listable st es) dirPath =
     (if listable then files_of_entries es dirPath else Inl EACCES)"
| "files_of_entries [] dirPath = Inr []"
| "files_of_entries ((name, File c m a) # es) dirPath =
     (case files_of_entries es dirPath of
        Inl e \<Rightarrow> Inl e
      | Inr files \<Rightarrow> Inr ((dirPath @ [name]) # files))"
| "files_of_entries ((name, Dir l st sub) # es) dirPath =
     (case files_in (Dir l st sub) (dirPath @ [name]) of
        Inl e \<Rightarrow> Inl e
      | Inr subFiles \<Rightarrow>
          (case files_of_entries es dirPath of
             Inl e \<Rightarrow> Inl e
           | Inr files \<Rightarrow> Inr (subFiles @ files)))"

definition getFilesRecursively :: "tree \<Rightarrow> errno + path list" where
  "getFilesRecursively t = (case t of None \<Rightarrow> Inr [] | Some n \<Rightarrow> files_in n [])"

text \<open>\<^verbatim>\<open>getDirectoriesRecursively\<close>, lines 254 to 278: a directory, then what is below it.\<close>

fun dirs_in :: "node \<Rightarrow> path \<Rightarrow> errno + path list"
  and dirs_of_entries :: "(string \<times> node) list \<Rightarrow> path \<Rightarrow> errno + path list" where
  "dirs_in (File c m a) dirPath = Inl ENOTDIR"
| "dirs_in (Dir listable st es) dirPath =
     (if listable then dirs_of_entries es dirPath else Inl EACCES)"
| "dirs_of_entries [] dirPath = Inr []"
| "dirs_of_entries ((name, File c m a) # es) dirPath = dirs_of_entries es dirPath"
| "dirs_of_entries ((name, Dir l st sub) # es) dirPath =
     (case dirs_in (Dir l st sub) (dirPath @ [name]) of
        Inl e \<Rightarrow> Inl e
      | Inr subDirectories \<Rightarrow>
          (case dirs_of_entries es dirPath of
             Inl e \<Rightarrow> Inl e
           | Inr directories \<Rightarrow> Inr ((dirPath @ [name]) # subDirectories @ directories)))"

definition getDirectoriesRecursively :: "tree \<Rightarrow> errno + path list" where
  "getDirectoriesRecursively t = (case t of None \<Rightarrow> Inr [] | Some n \<Rightarrow> dirs_in n [])"

text \<open>
  \<^verbatim>\<open>filesAreDifferent\<close>, lines 91 to 105. \<^verbatim>\<open>Promise.all\<close> rejects when either
  \<^verbatim>\<open>stat\<close> does, and the \<^verbatim>\<open>catch\<close> turns every rejection into the answer true.
\<close>

definition filesAreDifferent :: "tree \<Rightarrow> path \<Rightarrow> tree \<Rightarrow> path \<Rightarrow> bool" where
  "filesAreDifferent src sourcePath dst destPath =
     (case stat src sourcePath of
        Inl e \<Rightarrow> True
      | Inr sourceStat \<Rightarrow>
          (case stat dst destPath of
             Inl e \<Rightarrow> True
           | Inr destStat \<Rightarrow>
               st_mtime sourceStat \<noteq> st_mtime destStat \<or> st_size sourceStat \<noteq> st_size destStat))"

text \<open>
  What a method throws: the error of \<^verbatim>\<open>sync\<close> for a missing source, an error of the file
  system, or the error of \<^verbatim>\<open>new RegExp\<close>. An outcome carries the destination tree as
  it is when the method returns or throws.
\<close>

datatype failure = SourceMissing | FsError errno | PatternError regex_error

datatype 'a outcome = Thrown failure tree | Returned 'a tree

text \<open>
  \<^verbatim>\<open>copyFile\<close>, lines 112 to 123: the directory of the destination path is created with
  all that is missing above it, the file is copied, and the times of the source file are
  set on the copy. \<^verbatim>\<open>path.dirname\<close> drops the last segment.
\<close>

definition copyFile :: "int \<Rightarrow> tree \<Rightarrow> path \<Rightarrow> tree \<Rightarrow> path \<Rightarrow> unit outcome" where
  "copyFile now src sourcePath dst destPath =
     (let destDir = butlast destPath in
      case mkdir_recursive now dst destDir of
        Inl e \<Rightarrow> Thrown (FsError e) dst
      | Inr d1 \<Rightarrow>
          (case fs_copyFile now src sourcePath d1 destPath of
             Inl e \<Rightarrow> Thrown (FsError e) d1
           | Inr d2 \<Rightarrow>
               (case stat src sourcePath of
                  Inl e \<Rightarrow> Thrown (FsError e) d2
                | Inr sourceStat \<Rightarrow>
                    (case utimes d2 destPath (st_atime sourceStat) (st_mtime sourceStat) of
                       Inl e \<Rightarrow> Thrown (FsError e) d2
                     | Inr d3 \<Rightarrow> Returned () d3))))"

text \<open>
  \<^verbatim>\<open>cleanupEmptyDirectories\<close>, lines 220 to 246. \<open>depth\<close> is
  \<^verbatim>\<open>relativeDir.split(path.sep).length\<close>; the sort is the stable sort of
  \<^verbatim>\<open>Array.prototype.sort\<close> with the comparator of line 224. \<open>cleanup_directory\<close> is the
  body of the loop: both \<^verbatim>\<open>catch\<close> blocks are in it, the outer one entered when the
  source has nothing at the path, the inner one swallowing every error of \<^verbatim>\<open>readdir\<close>
  and \<^verbatim>\<open>rmdir\<close>. The enumeration of the directories stands outside both.
\<close>

fun split_on :: "char \<Rightarrow> string \<Rightarrow> string list" where
  "split_on sep [] = [[]]"
| "split_on sep (c # cs) =
     (if c = sep then [] # split_on sep cs
      else (case split_on sep cs of [] \<Rightarrow> [[c]] | w # ws \<Rightarrow> (c # w) # ws))"

definition depth :: "path \<Rightarrow> nat" where
  "depth relativeDir = length (split_on CHR ''/'' (render relativeDir))"

definition cleanup_directory :: "tree \<Rightarrow> tree \<Rightarrow> path \<Rightarrow> tree" where
  "cleanup_directory src dst relativeDir =
     (case access src relativeDir of
        Inr u \<Rightarrow> dst
      | Inl e \<Rightarrow>
          (case readdir dst relativeDir of
             Inl e' \<Rightarrow> dst
           | Inr entries \<Rightarrow>
               if length entries = 0 then
                 (case rmdir dst relativeDir of Inl e' \<Rightarrow> dst | Inr d \<Rightarrow> d)
               else dst))"

definition sort_deepest_first :: "path list \<Rightarrow> path list" where
  "sort_deepest_first destDirs = sort_key (\<lambda>d. - int (depth d)) destDirs"

definition cleanupEmptyDirectories :: "tree \<Rightarrow> tree \<Rightarrow> errno + tree" where
  "cleanupEmptyDirectories dst src =
     (case getDirectoriesRecursively dst of
        Inl e \<Rightarrow> Inl e
      | Inr destDirs \<Rightarrow>
          Inr (foldl (cleanup_directory src) dst (sort_deepest_first destDirs)))"

text \<open>
  \<^verbatim>\<open>sync\<close>, lines 140 to 213. \<open>copy_loop\<close> is the loop of lines 167 to 184 and
  \<open>delete_loop\<close> the loop of lines 188 to 201, each with its counters as arguments. In
  \<open>sync\<close> itself the existence probe comes first; of the two walks that \<^verbatim>\<open>Promise.all\<close>
  awaits, the model reports the error of the source walk when both fail.
\<close>

fun copy_loop :: "config \<Rightarrow> int \<Rightarrow> tree \<Rightarrow> path list \<Rightarrow> tree \<Rightarrow> nat \<Rightarrow> nat \<Rightarrow> (nat \<times> nat) outcome" where
  "copy_loop cfg now src [] dst copiedCount skippedCount = Returned (copiedCount, skippedCount) dst"
| "copy_loop cfg now src (relativeFile # rest) dst copiedCount skippedCount =
     (case matchesPattern (render relativeFile) (Some (copyExclusions cfg)) of
        Inl e \<Rightarrow> Thrown (PatternError e) dst
      | Inr True \<Rightarrow> copy_loop cfg now src rest dst copiedCount (Suc skippedCount)
      | Inr False \<Rightarrow>
          if filesAreDifferent src relativeFile dst relativeFile then
            (case copyFile now src relativeFile dst relativeFile of
               Thrown e d \<Rightarrow> Thrown e d
             | Returned u d \<Rightarrow> copy_loop cfg now src rest d (Suc copiedCount) skippedCount)
          else copy_loop cfg now src rest dst copiedCount skippedCount)"

fun delete_loop :: "config \<Rightarrow> path list \<Rightarrow> path list \<Rightarrow> tree \<Rightarrow> nat \<Rightarrow> nat outcome" where
  "delete_loop cfg sourceFiles [] dst deletedCount = Returned deletedCount dst"
| "delete_loop cfg sourceFiles (relativeFile # rest) dst deletedCount =
     (if relativeFile \<in> set sourceFiles then delete_loop cfg sourceFiles rest dst deletedCount
      else
        (case matchesPattern (render relativeFile) (Some (deleteExclusions cfg)) of
           Inl e \<Rightarrow> Thrown (PatternError e) dst
         | Inr True \<Rightarrow> delete_loop cfg sourceFiles rest dst deletedCount
         | Inr False \<Rightarrow>
             (case unlink dst relativeFile of
                Inl e \<Rightarrow> Thrown (FsError e) dst
              | Inr d \<Rightarrow> delete_loop cfg sourceFiles rest d (Suc deletedCount))))"

record sync_result =
  copied :: nat
  deleted :: nat
  skipped :: nat

definition sync :: "config \<Rightarrow> int \<Rightarrow> tree \<Rightarrow> tree \<Rightarrow> sync_result outcome" where
  "sync cfg now src dst =
     (case access src [] of
        Inl e \<Rightarrow> Thrown SourceMissing dst
      | Inr u \<Rightarrow>
          (case mkdir_recursive now dst [] of
             Inl e \<Rightarrow> Thrown (FsError e) dst
           | Inr d0 \<Rightarrow>
               (case getFilesRecursively src of
                  Inl e \<Rightarrow> Thrown (FsError e) d0
                | Inr sourceFiles \<Rightarrow>
                    (case getFilesRecursively d0 of
                       Inl e \<Rightarrow> Thrown (FsError e) d0
                     | Inr destFiles \<Rightarrow>
                         (case copy_loop cfg now src sourceFiles d0 0 0 of
                            Thrown e d \<Rightarrow> Thrown e d
                          | Returned (copiedCount, skippedCount) d1 \<Rightarrow>
                              (case delete_loop cfg sourceFiles destFiles d1 0 of
                                 Thrown e d \<Rightarrow> Thrown e d
                               | Returned deletedCount d2 \<Rightarrow>
                                   (case cleanupEmptyDirectories d2 src of
                                      Inl e \<Rightarrow> Thrown (FsError e) d2
                                    | Inr d3 \<Rightarrow>
                                        Returned \<lparr>copied = copiedCount, deleted = deletedCount,
                                          skipped = skippedCount\<rparr> d3)))))))"


text \<open>
  A tree every directory of which can be listed. The walkers fail on any other tree: the
  \<^verbatim>\<open>readdir\<close> of a directory that cannot be listed raises EACCES.
\<close>

fun all_listable :: "node \<Rightarrow> bool"
  and entries_listable :: "(string \<times> node) list \<Rightarrow> bool" where
  "all_listable (File c m a) = True"
| "all_listable (Dir l st es) = (l \<and> entries_listable es)"
| "entries_listable [] = True"
| "entries_listable ((name, n) # es) = (all_listable n \<and> entries_listable es)"


subsection \<open>Predicates on trees and on the rounds of the loops\<close>

text \<open>
  Entry names within one directory are distinct in a real file system; the association
  lists of the model need it said. \<open>good\<close> adds that every directory can be listed, which
  is what a successful walk establishes; \<open>root_dir\<close> says that the root is a directory.
\<close>

fun names_distinct :: "node \<Rightarrow> bool"
  and entries_distinct :: "(string \<times> node) list \<Rightarrow> bool" where
  "names_distinct (File c m a) = True"
| "names_distinct (Dir l st es) = (distinct (map fst es) \<and> entries_distinct es)"
| "entries_distinct [] = True"
| "entries_distinct ((name, n) # es) = (names_distinct n \<and> entries_distinct es)"

definition tree_distinct :: "tree \<Rightarrow> bool" where
  "tree_distinct t = (case t of None \<Rightarrow> True | Some n \<Rightarrow> names_distinct n)"

definition good :: "tree \<Rightarrow> bool" where
  "good t = (case t of None \<Rightarrow> True | Some n \<Rightarrow> names_distinct n \<and> all_listable n)"

definition root_dir :: "tree \<Rightarrow> bool" where
  "root_dir t = (case t of Some (Dir l st es) \<Rightarrow> True | _ \<Rightarrow> False)"

text \<open>What a path leads to, if anything, and whether that is a regular file.\<close>

definition node_at :: "tree \<Rightarrow> path \<Rightarrow> tree" where
  "node_at t p = (case lookup t p of Inl e \<Rightarrow> None | Inr n \<Rightarrow> Some n)"

definition is_file :: "tree \<Rightarrow> path \<Rightarrow> bool" where
  "is_file t p = (case lookup t p of Inr (File c m a) \<Rightarrow> True | _ \<Rightarrow> False)"

text \<open>
  The two exclusion tests of \<^verbatim>\<open>sync\<close>, and one round of each of its loops as a relation
  between the destination before and after it.
\<close>

definition copy_excluded :: "config \<Rightarrow> path \<Rightarrow> regex_error + bool" where
  "copy_excluded cfg rel = matchesPattern (render rel) (Some (copyExclusions cfg))"

definition delete_excluded :: "config \<Rightarrow> path \<Rightarrow> regex_error + bool" where
  "delete_excluded cfg rel = matchesPattern (render rel) (Some (deleteExclusions cfg))"

definition copy_step :: "config \<Rightarrow> int \<Rightarrow> tree \<Rightarrow> path \<Rightarrow> tree \<Rightarrow> tree \<Rightarrow> bool" where
  "copy_step cfg now src rel dst d =
     (copy_excluded cfg rel = Inr True \<and> d = dst
      \<or> copy_excluded cfg rel = Inr False \<and> \<not> filesAreDifferent src rel dst rel \<and> d = dst
      \<or> copy_excluded cfg rel = Inr False \<and> filesAreDifferent src rel dst rel
          \<and> copyFile now src rel dst rel = Returned () d)"

definition delete_step :: "config \<Rightarrow> path list \<Rightarrow> path \<Rightarrow> tree \<Rightarrow> tree \<Rightarrow> bool" where
  "delete_step cfg sourceFiles rel dst d =
     (rel \<in> set sourceFiles \<and> d = dst
      \<or> rel \<notin> set sourceFiles \<and> delete_excluded cfg rel = Inr True \<and> d = dst
      \<or> rel \<notin> set sourceFiles \<and> delete_excluded cfg rel = Inr False \<and> unlink dst rel = Inr d)"

text \<open>The attributes given to the directories of the examples.\<close>

definition st0 :: stats where
  "st0 = \<lparr>st_mtime = 0, st_atime = 0, st_size = 0\<rparr>"

subsection \<open>The pattern rule in the words of the specification\<close>

text \<open>
  The specification's rule for one pattern, written down independently of the code, to be
  compared with \<open>matches_one\<close>: a star stands for any run of characters other than the
  separator, a question mark for one such character, every other character for itself
  (up to case), and the whole string must be matched. Pattern and path are normalised to
  forward slashes; a pattern that then holds a separator is matched against the whole
  normalised path, any other against the base name.
\<close>

fun glob :: "string \<Rightarrow> string \<Rightarrow> bool" where
  "glob [] s = (s = [])"
| "glob (p # ps) s =
     (if p = CHR ''*'' then
        (glob ps s \<or> (case s of [] \<Rightarrow> False | c # cs \<Rightarrow> c \<noteq> CHR ''/'' \<and> glob (p # ps) cs))
      else if p = CHR ''?'' then
        (case s of [] \<Rightarrow> False | c # cs \<Rightarrow> c \<noteq> CHR ''/'' \<and> glob ps cs)
      else
        (case s of [] \<Rightarrow> False | c # cs \<Rightarrow> canonicalize c = canonicalize p \<and> glob ps cs))"

definition spec_matches :: "string \<Rightarrow> string \<Rightarrow> bool" where
  "spec_matches path pattern =
     (let p = replace_all backslash ''/'' pattern in
      if CHR ''/'' \<in> set p then glob p (replace_all backslash ''/'' path)
      else glob p (basename path))"


text \<open>
  The patterns on which the code follows that rule: those without a character that the
  compilation passes on to the regular-expression engine with a meaning of its own, and
  without a backslash.
\<close>

definition plain_char :: "char \<Rightarrow> bool" where
  "plain_char c = (c \<notin> set ''^$+()[{|'' \<and> c \<noteq> backslash)"

definition plain :: "string \<Rightarrow> bool" where
  "plain pattern = list_all plain_char pattern"

text \<open>What the compilation makes of one pattern character, as text, tokens and syntax.\<close>

definition translate :: "char \<Rightarrow> string" where
  "translate c =
     (if c = backslash then ''/''
      else if c = CHR ''.'' then [backslash, CHR ''.'']
      else if c = CHR ''*'' then ''[^/]*''
      else if c = CHR ''?'' then ''[^/]''
      else [c])"

definition ordinary :: "char \<Rightarrow> bool" where
  "ordinary c = (c \<notin> set ''^$+()[{|.*?'' \<and> c \<noteq> backslash)"

definition tokens_of :: "char \<Rightarrow> token list" where
  "tokens_of c =
     (if c = CHR ''*'' then [TClass True [Single CHR ''/''], TQuant 0 None]
      else if c = CHR ''?'' then [TClass True [Single CHR ''/'']]
      else [TChar c])"


definition atom_of :: "char \<Rightarrow> regex" where
  "atom_of c =
     (if c = CHR ''*'' then Rep 0 None (Cls True [Single CHR ''/''])
      else if c = CHR ''?'' then Cls True [Single CHR ''/'']
      else Chr c)"


text \<open>
  A source text in which every backslash stands before a dot. The compilation yields only
  such texts, and they hold no question mark.
\<close>

fun escapes_dot :: "string \<Rightarrow> bool" where
  "escapes_dot [] = True"
| "escapes_dot [c] = (c \<noteq> backslash)"
| "escapes_dot (c # d # r) = ((c \<noteq> backslash \<or> d = CHR ''.'') \<and> escapes_dot (d # r))"

section \<open>The compiled expression of a plain pattern\<close>

lemma replace_all_Nil [simp]: "replace_all c rep [] = []"
  by (simp add: replace_all_def)

lemma replace_all_Cons [simp]:
  "replace_all c rep (x # xs) = (if x = c then rep else [x]) @ replace_all c rep xs"
  by (simp add: replace_all_def)

lemma replace_all_append [simp]:
  "replace_all c rep (xs @ ys) = replace_all c rep xs @ replace_all c rep ys"
  by (simp add: replace_all_def)

lemma regexPattern_Cons: "regexPattern (c # p) = translate c @ regexPattern p"
  by (simp add: regexPattern_def translate_def backslash_def)

lemma regexPattern_concat: "regexPattern p = concat (map translate p)"
  by (induction p) (simp_all add: regexPattern_Cons, simp add: regexPattern_def)

lemma lex_Nil: "lex [] = Inr []"
  by (subst lex.simps) simp

lemma lex_Cons:
  "lex (c # r) =
     (case next_token (c # r) of
        Inl e \<Rightarrow> Inl e
      | Inr (t, r') \<Rightarrow> (case lex r' of Inl e \<Rightarrow> Inl e | Inr ts \<Rightarrow> Inr (t # ts)))"
  by (subst lex.simps) simp

lemma next_token_ordinary: "ordinary c \<Longrightarrow> next_token (c # r) = Inr (TChar c, r)"
  by (simp add: next_token_def ordinary_def)

lemma next_token_escaped_dot: "next_token (backslash # CHR ''.'' # r) = Inr (TChar CHR ''.'', r)"
  by (simp add: next_token_def read_atom_def is_alnum_def)

lemma class_items_close: "class_items acc (CHR '']'' # r) = Inr (rev acc, r)"
  by (subst class_items.simps) simp

lemma class_items_slash:
  "class_items [] (CHR ''/'' # CHR '']'' # r) = Inr ([Single CHR ''/''], r)"
  by (subst class_items.simps)
     (simp add: read_atom_def backslash_def class_items_close split: list.splits)

lemma next_token_not_slash:
  "next_token (CHR ''['' # CHR ''^'' # CHR ''/'' # CHR '']'' # r) = Inr (TClass True [Single CHR ''/''], r)"
  by (simp add: next_token_def backslash_def class_items_slash)

lemma next_token_star: "next_token (CHR ''*'' # r) = Inr (TQuant 0 None, r)"
  by (simp add: next_token_def backslash_def)

lemma lex_translate:
  assumes "plain_char c"
  shows "lex (translate c @ rest) =
    (case lex rest of Inl e \<Rightarrow> Inl e | Inr ts \<Rightarrow> Inr (tokens_of c @ ts))"
proof -
  consider "c = CHR ''.''" | "c = CHR ''*''" | "c = CHR ''?''" | "ordinary c"
    using assms by (auto simp: plain_char_def ordinary_def)
  then show ?thesis
  proof cases
    case 1
    then show ?thesis
      by (simp add: translate_def tokens_of_def backslash_def lex_Cons
          next_token_escaped_dot [unfolded backslash_def] split: sum.splits)
  next
    case 2
    then show ?thesis
      by (simp add: translate_def tokens_of_def backslash_def lex_Cons
          next_token_not_slash next_token_star split: sum.splits)
  next
    case 3
    then show ?thesis
      by (simp add: translate_def tokens_of_def backslash_def lex_Cons
          next_token_not_slash split: sum.splits)
  next
    case 4
    then have "translate c = [c]"
      by (auto simp: translate_def ordinary_def)
    moreover from 4 have "tokens_of c = [TChar c]"
      by (auto simp: tokens_of_def ordinary_def)
    ultimately show ?thesis
      using 4 by (simp add: lex_Cons next_token_ordinary split: sum.splits)
  qed
qed

lemma lex_plain:
  "list_all plain_char p \<Longrightarrow>
   lex (concat (map translate p) @ rest) =
     (case lex rest of Inl e \<Rightarrow> Inl e | Inr ts \<Rightarrow> Inr (concat (map tokens_of p) @ ts))"
  by (induction p) (auto simp: lex_translate split: sum.splits)

lemma lex_dollar: "lex ''$'' = Inr [TEol]"
  by (simp add: lex_Cons lex_Nil next_token_def backslash_def)

lemma lex_anchored:
  assumes "list_all plain_char p"
  shows "lex (''^'' @ regexPattern p @ ''$'') = Inr (TBol # concat (map tokens_of p) @ [TEol])"
proof -
  have "lex (regexPattern p @ ''$'') = Inr (concat (map tokens_of p) @ [TEol])"
    using lex_plain [OF assms, of "''$''"] by (simp add: regexPattern_concat lex_dollar)
  then show ?thesis
    by (simp add: lex_Cons next_token_def backslash_def)
qed


lemma parse_plain:
  "parse q False [] [] ts (concat (map tokens_of p) @ [TEol]) =
     Inr (conc (Eol # rev (map atom_of p) @ ts))"
proof (induction p arbitrary: q ts)
  case Nil
  then show ?case by (simp add: disj_def)
next
  case (Cons c p)
  then show ?case by (simp add: tokens_of_def atom_of_def)
qed

lemma foldl_Seq_rev: "foldl (\<lambda>acc t. Seq t acc) e (rev xs) = foldr Seq xs e"
  by (induction xs) simp_all

lemma conc_anchored:
  "conc (Eol # rev xs @ [Bol]) = Seq Bol (foldr Seq xs (Seq Eol Eps))"
  by (simp add: conc_def foldl_Seq_rev)

lemma RegExp_new_plain:
  assumes "list_all plain_char p"
  shows "RegExp_new (''^'' @ regexPattern p @ ''$'') =
    Inr (Seq Bol (foldr Seq (map atom_of p) (Seq Eol Eps)))"
proof -
  have "parse NoAtom False [] [] [] (TBol # concat (map tokens_of p) @ [TEol]) =
      Inr (conc (Eol # rev (map atom_of p) @ [Bol]))"
    by (simp add: parse_plain)
  then show ?thesis
    unfolding RegExp_new_def lex_anchored [OF assms] by (simp add: conc_anchored)
qed

lemma canonicalize_slash: "(canonicalize CHR ''/'' = canonicalize d) = (d = CHR ''/'')"
  by (auto simp: canonicalize_def split: option.splits if_splits)

lemma ends_not_slash:
  "ends (Cls True [Single CHR ''/'']) (n, s) =
     (case s of [] \<Rightarrow> [] | d # ds \<Rightarrow> if d = CHR ''/'' then [] else [(Suc n, ds)])"
  by (auto simp: canonicalize_slash split: list.splits)

lemma upto_iters_Nil [simp]: "upto_iters f k [] = []"
  by (induction k) simp_all

lemma star_not_slash:
  "(\<exists>x \<in> set (upto_iters (ends (Cls True [Single CHR ''/''])) (length s) [(n, s)]). P x) =
     (P (n, s) \<or> (case s of [] \<Rightarrow> False | d # ds \<Rightarrow> d \<noteq> CHR ''/'' \<and>
        (\<exists>x \<in> set (upto_iters (ends (Cls True [Single CHR ''/''])) (length ds) [(Suc n, ds)]). P x)))"
  by (cases s) (auto simp: ends_not_slash simp del: ends.simps)

lemma ends_star_seq:
  "(ends (Seq (Rep 0 None C) R) (n, s) \<noteq> []) =
     (\<exists>x \<in> set (upto_iters (ends C) (length s) [(n, s)]). ends R x \<noteq> [])"
  by auto

lemma ends_glob:
  "list_all plain_char p \<Longrightarrow>
   (ends (foldr Seq (map atom_of p) (Seq Eol Eps)) (n, s) \<noteq> []) = glob p s"
proof (induction p s arbitrary: n rule: glob.induct)
  case (1 s)
  then show ?case by simp
next
  case (2 c ps s)
  let ?C = "Cls True [Single CHR ''/'']"
  let ?R = "foldr Seq (map atom_of ps) (Seq Eol Eps)"
  from "2.prems" have ps: "list_all plain_char ps" by simp
  consider (star) "c = CHR ''*''" | (quest) "c \<noteq> CHR ''*''" "c = CHR ''?''"
    | (lit) "c \<noteq> CHR ''*''" "c \<noteq> CHR ''?''" by blast
  then show ?case
  proof cases
    case star
    have here: "(ends ?R (n, s) \<noteq> []) = glob ps s"
      using "2.IH"(1) [OF star ps] .
    have full: "foldr Seq (map atom_of (c # ps)) (Seq Eol Eps) = Seq (Rep 0 None ?C) ?R"
      using star by (simp add: atom_of_def)
    show ?thesis
    proof (cases s)
      case Nil
      then show ?thesis
        using here star unfolding full ends_star_seq by simp
    next
      case (Cons d ds)
      have later: "(\<exists>x \<in> set (upto_iters (ends ?C) (length ds) [(Suc n, ds)]). ends ?R x \<noteq> [])
          = glob (c # ps) ds"
        using "2.IH"(2) [OF star Cons "2.prems", of "Suc n"] unfolding full ends_star_seq .
      show ?thesis
        unfolding full ends_star_seq
        apply (subst star_not_slash)
        using here later star Cons by simp
    qed
  next
    case quest
    then have full: "foldr Seq (map atom_of (c # ps)) (Seq Eol Eps) = Seq ?C ?R"
      by (simp add: atom_of_def)
    show ?thesis
    proof (cases s)
      case Nil
      then show ?thesis using quest unfolding full by simp
    next
      case (Cons d ds)
      then show ?thesis
        using quest "2.IH"(3) [OF quest Cons ps, of "Suc n"] unfolding full
        by (simp add: ends_not_slash del: ends.simps(4))
    qed
  next
    case lit
    then have full: "foldr Seq (map atom_of (c # ps)) (Seq Eol Eps) = Seq (Chr c) ?R"
      by (simp add: atom_of_def)
    show ?thesis
    proof (cases s)
      case Nil
      then show ?thesis using lit unfolding full by simp
    next
      case (Cons d ds)
      then show ?thesis
        using lit "2.IH"(4) [OF lit Cons ps, of "Suc n"] unfolding full
        by simp
    qed
  qed
qed

lemma RegExp_test_anchored: "RegExp_test (Seq Bol R) s = (ends R (0, s) \<noteq> [])"
proof -
  have "list_ex (\<lambda>i. ends (Seq Bol R) (i, drop i s) \<noteq> []) [0..<Suc (length s)]
      = (\<exists>i < Suc (length s). ends (Seq Bol R) (i, drop i s) \<noteq> [])"
    by (simp add: list_ex_iff Bex_def del: upt_Suc)
  also have "\<dots> = (ends R (0, s) \<noteq> [])"
    by auto
  finally show ?thesis by (simp add: RegExp_test_def del: upt_Suc)
qed

lemma replace_all_absent: "c \<notin> set s \<Longrightarrow> replace_all c rep s = s"
  by (induction s) auto

lemma matches_one_plain:
  assumes "plain pattern"
  shows "matches_one filePath pattern = Inr (spec_matches filePath pattern)"
proof -
  have p: "list_all plain_char pattern" using assms by (simp add: plain_def)
  have nb: "backslash \<notin> set pattern"
    using assms by (auto simp: plain_def plain_char_def list_all_iff)
  show ?thesis
    by (simp add: matches_one_def spec_matches_def Let_def RegExp_new_plain [OF p, simplified]
        RegExp_test_anchored ends_glob [OF p] replace_all_absent [OF nb]
        del: ends.simps replace_all_Cons)
qed


section \<open>The compiled expressions stay inside the model\<close>

lemma escapes_dot_tl: "escapes_dot (c # r) \<Longrightarrow> escapes_dot r"
  by (cases r) auto

lemma escapes_dot_suffix: "suffix r cs \<Longrightarrow> escapes_dot cs \<Longrightarrow> escapes_dot r"
proof (induction cs)
  case Nil
  then show ?case by simp
next
  case (Cons c cs)
  then show ?case by (auto simp: suffix_Cons dest: escapes_dot_tl)
qed

lemma read_atom_suffix: "read_atom cs = Inr (a, r) \<Longrightarrow> suffix r cs"
  by (auto simp: read_atom_def suffix_def split: list.splits if_splits)

lemma read_atom_in_model: "escapes_dot cs \<Longrightarrow> read_atom cs \<noteq> Inl OutOfModel"
  by (auto simp: read_atom_def is_alnum_def split: list.splits)

lemma class_items_unfold:
  assumes "class_items acc cs = Inr (items, r)"
  shows "(\<exists>cs'. cs = CHR '']'' # cs' \<and> r = cs')
    \<or> (\<exists>a r0. read_atom cs = Inr (a, r0) \<and>
          ((\<exists>e r' b r2. r0 = CHR ''-'' # e # r' \<and> read_atom (e # r') = Inr (b, r2)
              \<and> class_items (Range a b # acc) r2 = Inr (items, r))
           \<or> class_items (Single a # acc) r0 = Inr (items, r)))"
  using assms
  by (subst (asm) class_items.simps) (auto split: list.splits sum.splits if_splits)

lemma class_items_suffix: "class_items acc cs = Inr (items, r) \<Longrightarrow> suffix r cs"
proof (induction "length cs" arbitrary: cs acc rule: less_induct)
  case less
  have step: "suffix r cs"
    if "class_items acc' cs' = Inr (items, r)" "length cs' < length cs" "suffix cs' cs" for acc' cs'
    using less.hyps [OF that(2) that(1)] that(3) by (rule suffix_order.trans)
  from class_items_unfold [OF less.prems] show ?case
  proof (elim disjE exE conjE)
    fix cs' assume "cs = CHR '']'' # cs'" "r = cs'"
    then show ?thesis by (simp add: suffix_Cons)
  next
    fix a r0 e r' b r2
    assume ra: "read_atom cs = Inr (a, r0)" and r0: "r0 = CHR ''-'' # e # r'"
      and rb: "read_atom (e # r') = Inr (b, r2)"
      and ci: "class_items (Range a b # acc) r2 = Inr (items, r)"
    have "suffix r2 (e # r')" using read_atom_suffix [OF rb] .
    also have "suffix (e # r') r0" using r0 by (simp add: suffix_Cons)
    also have "suffix r0 cs" using read_atom_suffix [OF ra] .
    finally have s: "suffix r2 cs" .
    have "length r2 < length (e # r')" using read_atom_shorter [OF rb] .
    also have "\<dots> < length r0" using r0 by simp
    also have "\<dots> < length cs" using read_atom_shorter [OF ra] .
    finally show ?thesis using step [OF ci _ s] by simp
  next
    fix a r0
    assume ra: "read_atom cs = Inr (a, r0)"
      and ci: "class_items (Single a # acc) r0 = Inr (items, r)"
    from step [OF ci read_atom_shorter [OF ra] read_atom_suffix [OF ra]] show ?thesis .
  qed
qed

lemma class_items_error:
  assumes "class_items acc cs = Inl e"
  shows "cs = [] \<and> e = SyntaxError
    \<or> (\<exists>c cs'. cs = c # cs' \<and> c \<noteq> CHR '']'' \<and>
        (read_atom cs = Inl e
         \<or> (\<exists>a r0. read_atom cs = Inr (a, r0) \<and>
              ((\<exists>e' r'. r0 = CHR ''-'' # e' # r' \<and>
                  (read_atom (e' # r') = Inl e
                   \<or> (\<exists>b r2. read_atom (e' # r') = Inr (b, r2) \<and>
                        (e = SyntaxError \<or> class_items (Range a b # acc) r2 = Inl e))))
               \<or> class_items (Single a # acc) r0 = Inl e))))"
  using assms
  by (subst (asm) class_items.simps) (auto split: list.splits sum.splits if_splits)

lemma class_items_in_model:
  "escapes_dot cs \<Longrightarrow> class_items acc cs \<noteq> Inl OutOfModel"
proof (induction "length cs" arbitrary: cs acc rule: less_induct)
  case less
  show ?case
  proof
    assume "class_items acc cs = Inl OutOfModel"
    from class_items_error [OF this] show False
    proof (elim disjE exE conjE)
      fix c cs' assume "read_atom cs = Inl OutOfModel"
      with read_atom_in_model [OF less.prems] show False by simp
    next
      fix c cs' a r0 e' r'
      assume ra: "read_atom cs = Inr (a, r0)" and r0: "r0 = CHR ''-'' # e' # r'"
        and "read_atom (e' # r') = Inl OutOfModel"
      moreover have "escapes_dot (e' # r')"
        using escapes_dot_suffix [OF read_atom_suffix [OF ra] less.prems] r0
        by (auto dest: escapes_dot_tl)
      ultimately show False using read_atom_in_model by blast
    next
      fix c cs' a r0 e' r' b r2
      assume ra: "read_atom cs = Inr (a, r0)" and r0: "r0 = CHR ''-'' # e' # r'"
        and rb: "read_atom (e' # r') = Inr (b, r2)"
        and ci: "class_items (Range a b # acc) r2 = Inl OutOfModel"
      have e1: "escapes_dot (e' # r')"
        using escapes_dot_suffix [OF read_atom_suffix [OF ra] less.prems] r0
        by (auto dest: escapes_dot_tl)
      have e2: "escapes_dot r2" using escapes_dot_suffix [OF read_atom_suffix [OF rb] e1] .
      have "length r2 < length (e' # r')" using read_atom_shorter [OF rb] .
      also have "\<dots> < length r0" using r0 by simp
      also have "\<dots> < length cs" using read_atom_shorter [OF ra] .
      finally show False using less.hyps [OF _ e2] ci by blast
    next
      fix c cs' a r0
      assume ra: "read_atom cs = Inr (a, r0)"
        and ci: "class_items (Single a # acc) r0 = Inl OutOfModel"
      have "escapes_dot r0" using escapes_dot_suffix [OF read_atom_suffix [OF ra] less.prems] .
      from less.hyps [OF read_atom_shorter [OF ra] this] ci show False by blast
    qed simp_all
  qed
qed

lemma braced_suffix: "braced cs = Some (n, m, r) \<Longrightarrow> suffix r cs"
proof -
  assume a: "braced cs = Some (n, m, r)"
  have d: "suffix (dropWhile is_digit xs) xs" for xs
    by (rule suffix_dropWhile)
  have e: "dropWhile is_digit xs = x # ys \<Longrightarrow> suffix ys xs" for x xs ys
    using d [of xs] by (auto simp: suffix_Cons dest: suffix_ConsD)
  from a show ?thesis
    by (auto simp: braced_def Let_def suffix_Cons split: list.splits if_splits dest!: e
        dest: suffix_ConsD)
qed

lemma next_token_suffix: "next_token cs = Inr (t, r) \<Longrightarrow> suffix r cs"
  unfolding next_token_def
  by (auto split: list.splits if_splits sum.splits option.splits
      simp: suffix_Cons
      dest!: read_atom_suffix class_items_suffix braced_suffix)

lemma next_token_in_model:
  assumes "escapes_dot cs"
  shows "next_token cs \<noteq> Inl OutOfModel"
proof (cases cs)
  case Nil
  then show ?thesis by (simp add: next_token_def)
next
  case (Cons c r)
  have r: "escapes_dot r" using assms Cons by (auto dest: escapes_dot_tl)
  consider (esc) "c = backslash" | (cls) "c \<noteq> backslash" "c = CHR ''[''"
    | (other) "c \<noteq> backslash" "c \<noteq> CHR ''[''" by blast
  then show ?thesis
  proof cases
    case esc
    with read_atom_in_model [OF assms] Cons show ?thesis
      by (auto simp: next_token_def split: sum.splits)
  next
    case cls
    show ?thesis
    proof (cases r)
      case Nil
      with cls Cons show ?thesis by (simp add: next_token_def)
    next
      case (Cons d r')
      have "escapes_dot r'" using r Cons by (auto dest: escapes_dot_tl)
      with class_items_in_model [of r' "[]"] class_items_in_model [OF r, of "[]"]
      have "(if d = CHR ''^'' then class_items [] r' else class_items [] r) \<noteq> Inl OutOfModel"
        by simp
      with cls \<open>cs = c # r\<close> Cons show ?thesis
        by (auto simp: next_token_def split: sum.splits)
    qed
  next
    case other
    with Cons show ?thesis
      by (simp add: next_token_def split: option.splits)
  qed
qed

lemma next_token_quest:
  "next_token cs = Inr (TQuest, r) \<Longrightarrow> CHR ''?'' \<in> set cs"
  unfolding next_token_def
  by (auto split: list.splits if_splits sum.splits option.splits)

lemma lex_in_model:
  "escapes_dot cs \<Longrightarrow> CHR ''?'' \<notin> set cs \<Longrightarrow>
   lex cs \<noteq> Inl OutOfModel \<and> (\<forall>ts. lex cs = Inr ts \<longrightarrow> TQuest \<notin> set ts)"
proof (induction cs rule: lex.induct)
  case (1 cs)
  show ?case
  proof (cases "cs = []")
    case True
    then show ?thesis by (subst lex.simps, subst (2) lex.simps) simp
  next
    case False
    show ?thesis
    proof (cases "next_token cs")
      case (Inl e)
      with False next_token_in_model [OF "1.prems"(1)] show ?thesis
        by (subst lex.simps, subst (2) lex.simps) simp
    next
      case (Inr tr)
      obtain t r where tr: "tr = (t, r)" by (cases tr)
      note s = next_token_suffix [OF Inr [unfolded tr]]
      have e: "escapes_dot r" using escapes_dot_suffix [OF s "1.prems"(1)] .
      have q: "CHR ''?'' \<notin> set r" using s "1.prems"(2) by (auto simp: suffix_def)
      have t: "t \<noteq> TQuest" using next_token_quest Inr tr "1.prems"(2) by blast
      from "1.IH" [OF False Inr [unfolded tr] refl e q] t False Inr tr show ?thesis
        by (subst lex.simps, subst (2) lex.simps) (auto split: sum.splits)
    qed
  qed
qed

lemma parse_in_model:
  "TQuest \<notin> set ts \<Longrightarrow> parse q opened fs alts rs ts \<noteq> Inl OutOfModel"
  by (induction q opened fs alts rs ts rule: parse.induct) (auto split: list.splits)


lemma escapes_dot_Cons: "c \<noteq> backslash \<Longrightarrow> escapes_dot (c # ys) = escapes_dot ys"
  by (cases ys) auto

lemma escapes_dot_translate: "escapes_dot ys \<Longrightarrow> escapes_dot (translate c @ ys)"
  by (cases ys) (auto simp: translate_def backslash_def escapes_dot_Cons)

lemma escapes_dot_compiled: "escapes_dot ys \<Longrightarrow> escapes_dot (concat (map translate p) @ ys)"
  by (induction p) (simp_all add: escapes_dot_translate)

lemma no_quest_compiled: "CHR ''?'' \<notin> set (concat (map translate p))"
  by (induction p) (auto simp: translate_def backslash_def split: if_splits)

lemma RegExp_new_in_model: "RegExp_new (''^'' @ regexPattern p @ ''$'') \<noteq> Inl OutOfModel"
proof -
  let ?src = "''^'' @ regexPattern p @ ''$''"
  have "escapes_dot (concat (map translate p) @ ''$'')"
    by (rule escapes_dot_compiled) (simp add: backslash_def)
  then have e: "escapes_dot ?src"
    by (simp add: regexPattern_concat escapes_dot_Cons backslash_def)
  have q: "CHR ''?'' \<notin> set ?src"
    using no_quest_compiled [of p] by (simp add: regexPattern_concat)
  from lex_in_model [OF e q] parse_in_model show ?thesis
    by (auto simp: RegExp_new_def split: sum.splits)
qed

lemma matches_one_in_model: "matches_one filePath pattern \<noteq> Inl OutOfModel"
  using RegExp_new_in_model [of pattern]
  by (auto simp: matches_one_def Let_def split: sum.splits)

lemma some_pattern_in_model: "some_pattern filePath patterns \<noteq> Inl OutOfModel"
  using matches_one_in_model
  by (induction patterns) (auto split: sum.splits bool.splits)

lemma matchesPattern_in_model: "matchesPattern filePath patterns \<noteq> Inl OutOfModel"
  using some_pattern_in_model
  by (auto simp: matchesPattern_def split: option.splits)

section \<open>Paths, lookups and updates\<close>

lemma map_of_put_entry: "map_of (put_entry es x c) = (map_of es)(x := c)"
proof (cases c)
  case None
  have "map_of (filter (\<lambda>e. fst e \<noteq> x) es) = (map_of es)(x := None)"
    by (induction es) (auto simp: fun_eq_iff)
  then show ?thesis using None by simp
next
  case (Some n)
  have a: "map_of (map (\<lambda>e. if fst e = x then (x, n) else e) es) y
      = (if y = x \<and> x \<in> fst ` set es then Some n else map_of es y)" for y
    by (induction es) force+
  have b: "x \<notin> fst ` set es \<Longrightarrow> map_of (es @ [(x, n)]) y = ((map_of es)(x \<mapsto> n)) y" for y
    by (induction es) auto
  show ?thesis
    using Some a b by (auto simp: fun_eq_iff)
qed

lemma lookup_Nil [simp]: "lookup t [] = (case t of None \<Rightarrow> Inl ENOENT | Some n \<Rightarrow> Inr n)"
  by (cases t) auto

lemma alter_other:
  "alter fill f t q = Inr t' \<Longrightarrow> \<not> prefix q p \<Longrightarrow> \<not> prefix p q \<Longrightarrow> lookup t' p = lookup t p"
proof (induction fill f t q arbitrary: t' p rule: alter.induct)
  case (1 fill f t)
  then show ?case by simp
next
  case (2 fill f x q)
  then obtain y p' where p: "p = y # p'" by (cases p) auto
  from 2 p show ?case
    by (auto split: option.splits sum.splits simp: map_of_put_entry)
next
  case (3 fill f c m a x q)
  then show ?case by simp
next
  case (4 fill f l st es x q)
  then obtain y p' where p: "p = y # p'" by (cases p) auto
  from 4 p show ?case
    by (auto split: option.splits sum.splits simp: map_of_put_entry)
qed

lemma lookup_append_Inr: "lookup t q = Inr n \<Longrightarrow> lookup t (q @ p) = lookup (Some n) p"
proof (induction t q rule: lookup.induct)
  case (2 n)
  then show ?case by simp
qed auto

lemma lookup_append_Inl: "lookup t q = Inl e \<Longrightarrow> lookup t (q @ p) = Inl e"
proof (induction t q rule: lookup.induct)
  case (2 n)
  then show ?case by simp
qed auto

lemma alter_at: "alter fill f t q = Inr t' \<Longrightarrow> f (node_at t q) = Inr (node_at t' q)"
proof (induction fill f t q arbitrary: t' rule: alter.induct)
  case (1 fill f t)
  then show ?case by (cases t; cases t') (auto simp: node_at_def)
next
  case (2 fill f x q)
  then show ?case
    by (auto simp: node_at_def map_of_put_entry split: option.splits sum.splits)
next
  case (3 fill f c m a x q)
  then show ?case by simp
next
  case (4 fill f l st es x q)
  then show ?case
    by (auto simp: node_at_def map_of_put_entry split: option.splits sum.splits)
qed

lemma alter_ancestor:
  "alter fill f t q = Inr t' \<Longrightarrow> strict_prefix p q \<Longrightarrow>
   \<exists>l st es. lookup t' p = Inr (Dir l st es)
      \<and> (\<forall>n. lookup t p = Inr n \<longrightarrow> (\<exists>l' es'. n = Dir l' st es'))"
proof (induction fill f t q arbitrary: t' p rule: alter.induct)
  case (1 fill f t)
  then show ?case by simp
next
  case (2 fill f x q)
  show ?case
  proof (cases p)
    case Nil
    with 2 show ?thesis by (auto split: option.splits sum.splits)
  next
    case (Cons y p')
    with 2 show ?thesis
      by (auto split: option.splits sum.splits simp: map_of_put_entry)
  qed
next
  case (3 fill f c m a x q)
  then show ?case by simp
next
  case (4 fill f l st es x q)
  show ?case
  proof (cases p)
    case Nil
    with 4 show ?thesis by (auto split: option.splits sum.splits)
  next
    case (Cons y p')
    with 4 show ?thesis
      by (auto split: option.splits sum.splits simp: map_of_put_entry)
  qed
qed

lemma alter_stat_other:
  assumes "alter fill f t q = Inr t'" and "\<not> prefix q p" and "stat t p = Inr s"
  shows "stat t' p = Inr s"
proof (cases "prefix p q")
  case True
  with assms(2) have "strict_prefix p q" by (auto simp: strict_prefix_def)
  from alter_ancestor [OF assms(1) this] assms(3) show ?thesis
    by (auto simp: stat_def node_stats_def split: sum.splits)
next
  case False
  with alter_other [OF assms(1) assms(2)] assms(3) show ?thesis
    by (simp add: stat_def)
qed

lemma is_file_iff: "is_file t p = (\<exists>c m a. lookup t p = Inr (File c m a))"
  by (auto simp: is_file_def split: sum.splits node.splits)

lemma lookup_node_at: "lookup t q = Inr n \<Longrightarrow> node_at t q = Some n"
  by (simp add: node_at_def)

lemma lookup_below: "lookup t (q @ p) = Inr n \<Longrightarrow> lookup (node_at t q) p = Inr n"
  by (cases "lookup t q") (auto simp: lookup_append_Inl lookup_append_Inr node_at_def)

lemma alter_at_error:
  "alter fill f t q = Inr t' \<Longrightarrow> lookup t' q = Inl e \<Longrightarrow> e = ENOENT"
proof (induction fill f t q arbitrary: t' rule: alter.induct)
  case (1 fill f t)
  then show ?case by (cases t') auto
next
  case (2 fill f x q)
  then show ?case
    by (auto simp: map_of_put_entry split: option.splits sum.splits)
next
  case (3 fill f c m a x q)
  then show ?case by simp
next
  case (4 fill f l st es x q)
  then show ?case
    by (auto simp: map_of_put_entry split: option.splits sum.splits)
qed

lemma alter_at_lookup:
  "alter fill f t q = Inr t' \<Longrightarrow>
   lookup t' q = (case node_at t' q of None \<Rightarrow> Inl ENOENT | Some n \<Rightarrow> Inr n)"
  using alter_at_error [of fill f t q t']
  by (auto simp: node_at_def split: sum.splits)

lemma alter_below:
  assumes "alter fill f t q = Inr t'"
  shows "lookup t' (q @ p) = lookup (node_at t' q) p"
proof (cases "node_at t' q")
  case None
  with alter_at_lookup [OF assms] have "lookup t' q = Inl ENOENT" by simp
  from lookup_append_Inl [OF this] None show ?thesis by simp
next
  case (Some n)
  with alter_at_lookup [OF assms] have "lookup t' q = Inr n" by simp
  from lookup_append_Inr [OF this] Some show ?thesis by simp
qed

lemma mkdir_kept:
  assumes "mkdir_recursive now t q = Inr t'" and "lookup t p = Inr n"
  shows "\<exists>n'. lookup t' p = Inr n' \<and> node_stats n' = node_stats n
    \<and> (\<forall>c m a. n = File c m a \<longrightarrow> n' = n)"
proof -
  note a = assms(1) [unfolded mkdir_recursive_def]
  consider (below) p' where "p = q @ p'" | (above) "strict_prefix p q"
    | (other) "\<not> prefix q p" "\<not> prefix p q"
    by (auto simp: strict_prefix_def elim: prefixE)
  then show ?thesis
  proof cases
    case below
    from assms(2) below have b: "lookup (node_at t q) p' = Inr n"
      by (simp add: lookup_below)
    then obtain nq where nq: "node_at t q = Some nq" by (cases "node_at t q") auto
    from alter_at [OF a] nq have "node_at t' q = Some nq"
      by (auto split: node.splits)
    with alter_below [OF a, of p'] b nq below show ?thesis by simp
  next
    case above
    from alter_ancestor [OF a above] assms(2) show ?thesis
      by (auto simp: node_stats_def)
  next
    case other
    from alter_other [OF a other] assms(2) show ?thesis by simp
  qed
qed

lemma mkdir_stat: "mkdir_recursive now t q = Inr t' \<Longrightarrow> stat t p = Inr s \<Longrightarrow> stat t' p = Inr s"
  using mkdir_kept [of now t q t' p]
  by (auto simp: stat_def split: sum.splits)

lemma mkdir_no_new_file:
  assumes "mkdir_recursive now t q = Inr t'" and "is_file t' p"
  shows "is_file t p"
proof -
  note a = assms(1) [unfolded mkdir_recursive_def]
  consider (below) p' where "p = q @ p'" | (above) "strict_prefix p q"
    | (other) "\<not> prefix q p" "\<not> prefix p q"
    by (auto simp: strict_prefix_def elim: prefixE)
  then show ?thesis
  proof cases
    case below
    from assms(2) below alter_below [OF a, of p']
    obtain c m x where b: "lookup (node_at t' q) p' = Inr (File c m x)"
      by (auto simp: is_file_iff)
    show ?thesis
    proof (cases "node_at t q")
      case None
      with alter_at [OF a] have "node_at t' q = Some (Dir True (new_stats now) [])" by simp
      with b show ?thesis by (cases p') auto
    next
      case (Some nq)
      with alter_at [OF a] have "node_at t' q = Some nq"
        by (auto split: node.splits)
      with b Some have "lookup (Some nq) p' = Inr (File c m x)" by simp
      moreover from Some have "lookup t q = Inr nq"
        by (auto simp: node_at_def split: sum.splits)
      ultimately show ?thesis
        using below by (simp add: lookup_append_Inr is_file_iff)
    qed
  next
    case above
    from alter_ancestor [OF a above] assms(2) show ?thesis
      by (auto simp: is_file_iff)
  next
    case other
    from alter_other [OF a other] assms(2) show ?thesis by (simp add: is_file_iff)
  qed
qed

lemma copyFile_ReturnedE:
  assumes "copyFile now src sp dst dp = Returned u d"
  obtains d1 d2 c m a where
    "mkdir_recursive now dst (butlast dp) = Inr d1"
    "lookup src sp = Inr (File c m a)"
    "fs_copyFile now src sp d1 dp = Inr d2"
    "utimes d2 dp a m = Inr d"
  using assms
  by (auto simp: copyFile_def Let_def fs_copyFile_def stat_def node_stats_def
      split: sum.splits node.splits)

lemma fs_copyFile_at:
  assumes "fs_copyFile now src sp d1 dp = Inr d2" and "lookup src sp = Inr (File c m a)"
  shows "\<exists>x. node_at d2 dp = Some (File c now x)"
proof -
  from assms have "alter None
      (\<lambda>t. case t of None \<Rightarrow> Inr (Some (File c now now))
        | Some (File c' m' a') \<Rightarrow> Inr (Some (File c now a'))
        | Some (Dir l st es) \<Rightarrow> Inl EISDIR) d1 dp = Inr d2"
    by (simp add: fs_copyFile_def)
  from alter_at [OF this] show ?thesis
    by (cases "node_at d1 dp") (auto split: node.splits intro: sym)
qed

lemma copyFile_result:
  assumes "copyFile now src sp dst dp = Returned u d"
  shows "\<exists>c m a. lookup src sp = Inr (File c m a) \<and> lookup d dp = Inr (File c m a)"
proof -
  from assms obtain d1 d2 c m a where
    src: "lookup src sp = Inr (File c m a)" and
    cp: "fs_copyFile now src sp d1 dp = Inr d2" and
    ut: "utimes d2 dp a m = Inr d"
    by (rule copyFile_ReturnedE)
  from fs_copyFile_at [OF cp src] obtain x where "node_at d2 dp = Some (File c now x)" ..
  with ut have "node_at d dp = Some (File c m a)"
    by (auto simp: utimes_def dest!: alter_at)
  then have "lookup d dp = Inr (File c m a)"
    by (auto simp: node_at_def split: sum.splits)
  with src show ?thesis by blast
qed

lemma copyFile_synced:
  "copyFile now src sp dst dp = Returned u d \<Longrightarrow> \<not> filesAreDifferent src sp d dp"
  by (drule copyFile_result) (auto simp: filesAreDifferent_def stat_def)

lemma copyFile_stat_other:
  assumes "copyFile now src sp dst dp = Returned u d" and "\<not> prefix dp p" and "stat dst p = Inr s"
  shows "stat d p = Inr s"
proof -
  from assms(1) obtain d1 d2 c m a where
    mk: "mkdir_recursive now dst (butlast dp) = Inr d1" and
    src: "lookup src sp = Inr (File c m a)" and
    cp: "fs_copyFile now src sp d1 dp = Inr d2" and
    ut: "utimes d2 dp a m = Inr d"
    by (rule copyFile_ReturnedE)
  have "stat d1 p = Inr s" using mkdir_stat [OF mk assms(3)] .
  then have "stat d2 p = Inr s"
    using cp src assms(2) by (auto simp: fs_copyFile_def elim: alter_stat_other)
  then show ?thesis
    using ut assms(2) by (auto simp: utimes_def elim: alter_stat_other)
qed

lemma alter_file_no_new:
  assumes a: "alter None f t q = Inr t'" and "is_file t' p" and "p \<noteq> q"
    and leaf: "\<And>n. node_at t' q = Some n \<Longrightarrow> (\<exists>c m x. n = File c m x)"
  shows "is_file t p"
proof -
  consider (below) p' where "p = q @ p'" "p' \<noteq> []" | (above) "strict_prefix p q"
    | (other) "\<not> prefix q p" "\<not> prefix p q"
    using assms(3) by (auto simp: strict_prefix_def elim!: prefixE)
  then show ?thesis
  proof cases
    case below
    from assms(2) below alter_below [OF a, of p']
    obtain c m x where b: "lookup (node_at t' q) p' = Inr (File c m x)"
      by (auto simp: is_file_iff)
    then obtain n where n: "node_at t' q = Some n" by (cases "node_at t' q") auto
    with leaf obtain c' m' x' where "n = File c' m' x'" by blast
    with b n below(2) show ?thesis by (cases p') auto
  next
    case above
    from alter_ancestor [OF a above] assms(2) show ?thesis
      by (auto simp: is_file_iff)
  next
    case other
    from alter_other [OF a other] assms(2) show ?thesis by (simp add: is_file_iff)
  qed
qed

lemma copyFile_no_new_file:
  assumes "copyFile now src sp dst dp = Returned u d" and "is_file d p" and "p \<noteq> dp"
  shows "is_file dst p"
proof -
  from assms(1) obtain d1 d2 c m a where
    mk: "mkdir_recursive now dst (butlast dp) = Inr d1" and
    src: "lookup src sp = Inr (File c m a)" and
    cp: "fs_copyFile now src sp d1 dp = Inr d2" and
    ut: "utimes d2 dp a m = Inr d"
    by (rule copyFile_ReturnedE)
  note n2 = fs_copyFile_at [OF cp src]
  with ut have n3: "node_at d dp = Some (File c m a)"
    by (auto simp: utimes_def dest!: alter_at)
  have "is_file d2 p"
    using ut assms(2,3) n3 unfolding utimes_def
    by (auto elim!: alter_file_no_new)
  then have "is_file d1 p"
    using cp src assms(3) n2 unfolding fs_copyFile_def
    by (auto elim!: alter_file_no_new)
  then show ?thesis using mkdir_no_new_file [OF mk] by simp
qed

lemma unlink_was_file: "unlink t q = Inr t' \<Longrightarrow> is_file t q"
  by (auto simp: unlink_def is_file_def node_at_def dest!: alter_at
      split: option.splits node.splits sum.splits)

lemma unlink_gone: "unlink t q = Inr t' \<Longrightarrow> node_at t' q = None"
  by (auto simp: unlink_def dest!: alter_at split: option.splits node.splits)

lemma lookup_through_file:
  "lookup t q = Inr (File c m a) \<Longrightarrow> strict_prefix q p \<Longrightarrow> lookup t p = Inl ENOTDIR"
  by (auto simp: strict_prefix_def lookup_append_Inr elim!: prefixE) (case_tac zs; simp)

lemma unlink_stat_other:
  assumes "unlink t q = Inr t'" and "p \<noteq> q" and "stat t p = Inr s"
  shows "stat t' p = Inr s"
proof (cases "prefix q p")
  case True
  with assms(2) have "strict_prefix q p" by (auto simp: strict_prefix_def)
  with unlink_was_file [OF assms(1)] assms(3) show ?thesis
    by (auto simp: is_file_iff stat_def dest: lookup_through_file)
next
  case False
  with assms show ?thesis by (auto simp: unlink_def elim: alter_stat_other)
qed

lemma unlink_no_new_file:
  assumes "unlink t q = Inr t'" and "is_file t' p"
  shows "is_file t p \<and> p \<noteq> q"
proof -
  have ne: "p \<noteq> q"
    using unlink_gone [OF assms(1)] assms(2) by (auto simp: is_file_iff node_at_def)
  moreover have "is_file t p"
    using assms ne unlink_gone [OF assms(1)] unfolding unlink_def
    by (auto elim!: alter_file_no_new)
  ultimately show ?thesis by simp
qed

lemma rmdir_was_empty:
  "rmdir t q = Inr t' \<Longrightarrow> \<exists>l st. lookup t q = Inr (Dir l st [])"
  by (auto simp: rmdir_def node_at_def dest!: alter_at
      split: option.splits node.splits sum.splits if_splits)

lemma rmdir_gone: "rmdir t q = Inr t' \<Longrightarrow> node_at t' q = None"
  by (auto simp: rmdir_def dest!: alter_at split: option.splits node.splits if_splits)

lemma lookup_through_empty:
  "lookup t q = Inr (Dir l st []) \<Longrightarrow> strict_prefix q p \<Longrightarrow> lookup t p = Inl ENOENT"
  by (auto simp: strict_prefix_def lookup_append_Inr elim!: prefixE) (case_tac zs; simp)

lemma rmdir_stat_other:
  assumes "rmdir t q = Inr t'" and "p \<noteq> q" and "stat t p = Inr s"
  shows "stat t' p = Inr s"
proof (cases "prefix q p")
  case True
  with assms(2) have "strict_prefix q p" by (auto simp: strict_prefix_def)
  with rmdir_was_empty [OF assms(1)] assms(3) show ?thesis
    by (auto simp: stat_def dest: lookup_through_empty)
next
  case False
  with assms show ?thesis by (auto simp: rmdir_def elim: alter_stat_other)
qed

lemma rmdir_no_new_file:
  assumes "rmdir t q = Inr t'" and "is_file t' p"
  shows "is_file t p"
proof -
  have ne: "p \<noteq> q"
    using rmdir_gone [OF assms(1)] assms(2) by (auto simp: is_file_iff node_at_def)
  then show ?thesis
    using assms rmdir_gone [OF assms(1)] unfolding rmdir_def
    by (auto elim!: alter_file_no_new)
qed

lemma entries_good_iff:
  "(entries_distinct es \<and> entries_listable es) = (\<forall>e \<in> set es. names_distinct (snd e) \<and> all_listable (snd e))"
  by (induction es) auto

lemma good_map_of:
  "entries_distinct es \<Longrightarrow> entries_listable es \<Longrightarrow> good (map_of es x)"
  using entries_good_iff [of es]
  by (auto simp: good_def split: option.splits dest!: map_of_SomeD)

lemma put_entry_names: "distinct (map fst es) \<Longrightarrow> distinct (map fst (put_entry es x c))"
proof (cases c)
  case None
  assume "distinct (map fst es)"
  then show ?thesis using None by (simp add: distinct_map_filter)
next
  case (Some n)
  assume d: "distinct (map fst es)"
  have "fst \<circ> (\<lambda>e. if fst e = x then (x, n) else e) = fst"
    by (auto simp: fun_eq_iff)
  with d Some show ?thesis by simp
qed

lemma put_entry_set: "e \<in> set (put_entry es x c) \<Longrightarrow> e \<in> set es \<or> c = Some (snd e)"
  by (cases c) (auto split: if_splits)

lemma good_put_entry:
  assumes "distinct (map fst es)" "entries_distinct es" "entries_listable es" "good c"
  shows "distinct (map fst (put_entry es x c)) \<and> entries_distinct (put_entry es x c)
    \<and> entries_listable (put_entry es x c)"
proof -
  have "names_distinct (snd e) \<and> all_listable (snd e)" if "e \<in> set (put_entry es x c)" for e
  proof -
    from put_entry_set [OF that] show ?thesis
    proof
      assume "e \<in> set es"
      with assms(2,3) entries_good_iff [of es] show ?thesis by blast
    next
      assume "c = Some (snd e)"
      with assms(4) show ?thesis by (simp add: good_def)
    qed
  qed
  then have "entries_distinct (put_entry es x c) \<and> entries_listable (put_entry es x c)"
    using entries_good_iff [of "put_entry es x c"] by blast
  with put_entry_names [OF assms(1)] show ?thesis by simp
qed

lemma alter_good:
  "alter fill f t q = Inr t' \<Longrightarrow> good t \<Longrightarrow> (\<And>c r. good c \<Longrightarrow> f c = Inr r \<Longrightarrow> good r)
   \<Longrightarrow> good t'"
proof (induction fill f t q arbitrary: t' rule: alter.induct)
  case (1 fill f t)
  from 1(3) [of t t'] 1(1,2) show ?case by simp
next
  case (2 fill f x q)
  from 2(2) obtain st r where fill: "fill = Some st" and r: "alter fill f None q = Inr r"
    and t': "t' = Some (Dir True st (put_entry [] x r))"
    by (auto split: option.splits sum.splits)
  have "good None" by (simp add: good_def)
  with 2(1) [OF fill r] 2(4) have "good r" by blast
  from good_put_entry [of "[]" r x] this t' show ?case
    by (simp add: good_def)
next
  case (3 fill f c m a x q)
  then show ?case by simp
next
  case (4 fill f l st es x q)
  from 4(2) obtain r where r: "alter fill f (map_of es x) q = Inr r"
    and t': "t' = Some (Dir l st (put_entry es x r))"
    by (auto split: sum.splits)
  from 4(3) have es: "l" "distinct (map fst es)" "entries_distinct es" "entries_listable es"
    by (auto simp: good_def)
  from 4(1) [OF r good_map_of [OF es(3,4)]] 4(4) have "good r" by blast
  from good_put_entry [OF es(2,3,4) this, of x] t' es(1) show ?case
    by (simp add: good_def)
qed

lemma mkdir_good:
  assumes "mkdir_recursive now t q = Inr t'" and "good t"
  shows "good t'"
  by (rule alter_good [OF assms(1) [unfolded mkdir_recursive_def] assms(2)])
     (auto simp: good_def split: option.splits node.splits if_splits)

lemma unlink_good:
  assumes "unlink t q = Inr t'" and "good t"
  shows "good t'"
  by (rule alter_good [OF assms(1) [unfolded unlink_def] assms(2)])
     (auto simp: good_def split: option.splits node.splits if_splits)

lemma rmdir_good:
  assumes "rmdir t q = Inr t'" and "good t"
  shows "good t'"
  by (rule alter_good [OF assms(1) [unfolded rmdir_def] assms(2)])
     (auto simp: good_def split: option.splits node.splits if_splits)

lemma copyFile_good:
  assumes "copyFile now src sp dst dp = Returned u d" and "good dst"
  shows "good d"
proof -
  from assms(1) obtain d1 d2 c m a where
    mk: "mkdir_recursive now dst (butlast dp) = Inr d1" and
    src: "lookup src sp = Inr (File c m a)" and
    cp: "fs_copyFile now src sp d1 dp = Inr d2" and
    ut: "utimes d2 dp a m = Inr d"
    by (rule copyFile_ReturnedE)
  have g1: "good d1" using mkdir_good [OF mk assms(2)] .
  from cp src have cp': "alter None
      (\<lambda>t. case t of None \<Rightarrow> Inr (Some (File c now now))
        | Some (File c' m' a') \<Rightarrow> Inr (Some (File c now a'))
        | Some (Dir l st es) \<Rightarrow> Inl EISDIR) d1 dp = Inr d2"
    by (simp add: fs_copyFile_def)
  have g2: "good d2"
    by (rule alter_good [OF cp' g1]) (auto simp: good_def split: option.splits node.splits)
  show ?thesis
    by (rule alter_good [OF ut [unfolded utimes_def] g2])
       (auto simp: good_def split: option.splits node.splits)
qed

lemma alter_root:
  "alter fill f t q = Inr t' \<Longrightarrow> root_dir t \<Longrightarrow> q \<noteq> [] \<Longrightarrow> root_dir t'"
  by (cases "(fill, f, t, q)" rule: alter.cases)
     (auto simp: root_dir_def split: sum.splits)

lemma mkdir_root:
  assumes "mkdir_recursive now t q = Inr t'" and "root_dir t"
  shows "root_dir t'"
proof (cases q)
  case Nil
  with assms show ?thesis
    by (auto simp: mkdir_recursive_def root_dir_def split: option.splits node.splits)
next
  case (Cons x q')
  then have "q \<noteq> []" by simp
  from alter_root [OF assms(1) [unfolded mkdir_recursive_def] assms(2) this] show ?thesis .
qed

lemma copyFile_root:
  assumes "copyFile now src sp dst dp = Returned u d" and "root_dir dst" and "dp \<noteq> []"
  shows "root_dir d"
proof -
  from assms(1) obtain d1 d2 c m a where
    mk: "mkdir_recursive now dst (butlast dp) = Inr d1" and
    src: "lookup src sp = Inr (File c m a)" and
    cp: "fs_copyFile now src sp d1 dp = Inr d2" and
    ut: "utimes d2 dp a m = Inr d"
    by (rule copyFile_ReturnedE)
  have r1: "root_dir d1" using mkdir_root [OF mk assms(2)] .
  from cp src have cp': "alter None
      (\<lambda>t. case t of None \<Rightarrow> Inr (Some (File c now now))
        | Some (File c' m' a') \<Rightarrow> Inr (Some (File c now a'))
        | Some (Dir l st es) \<Rightarrow> Inl EISDIR) d1 dp = Inr d2"
    by (simp add: fs_copyFile_def)
  have r2: "root_dir d2" using alter_root [OF cp' r1 assms(3)] .
  show ?thesis using alter_root [OF ut [unfolded utimes_def] r2 assms(3)] .
qed

section \<open>The walkers\<close>

lemma files_in_total:
  "all_listable n \<Longrightarrow> (\<exists>fs. files_in n p = Inr fs) \<or> (\<exists>c m a. n = File c m a)"
  "entries_listable es \<Longrightarrow> \<exists>fs. files_of_entries es p = Inr fs"
  by (induction n p and es p rule: files_in_files_of_entries.induct) (auto split: sum.splits)

lemma files_in_unlistable:
  "\<not> all_listable n \<Longrightarrow> files_in n p = Inl EACCES"
  "\<not> entries_listable es \<Longrightarrow> files_of_entries es p = Inl EACCES"
proof (induction n p and es p rule: files_in_files_of_entries.induct)
  case (5 name l st sub es dirPath)
  show ?case
  proof (cases "all_listable (Dir l st sub)")
    case True
    then obtain fs where "files_in (Dir l st sub) (dirPath @ [name]) = Inr fs"
      using files_in_total(1) [of "Dir l st sub"] by blast
    moreover have "\<not> entries_listable es" using True 5 by simp
    ultimately show ?thesis using 5 by simp
  next
    case False
    then show ?thesis using 5 by simp
  qed
qed auto

lemma dirs_in_total:
  "all_listable n \<Longrightarrow> (\<exists>fs. dirs_in n p = Inr fs) \<or> (\<exists>c m a. n = File c m a)"
  "entries_listable es \<Longrightarrow> \<exists>fs. dirs_of_entries es p = Inr fs"
  by (induction n p and es p rule: dirs_in_dirs_of_entries.induct) (auto split: sum.splits)

lemma dirs_in_unlistable:
  "\<not> all_listable n \<Longrightarrow> dirs_in n p = Inl EACCES"
  "\<not> entries_listable es \<Longrightarrow> dirs_of_entries es p = Inl EACCES"
proof (induction n p and es p rule: dirs_in_dirs_of_entries.induct)
  case (5 name l st sub es dirPath)
  show ?case
  proof (cases "all_listable (Dir l st sub)")
    case True
    then obtain fs where "dirs_in (Dir l st sub) (dirPath @ [name]) = Inr fs"
      using dirs_in_total(1) [of "Dir l st sub"] by blast
    moreover have "\<not> entries_listable es" using True 5 by simp
    ultimately show ?thesis using 5 by simp
  next
    case False
    then show ?thesis using 5 by simp
  qed
qed auto


section \<open>The loops of \<^verbatim>\<open>sync\<close>\<close>

lemma is_file_simps [simp]:
  "is_file None r = False"
  "is_file (Some (File c m a)) r = (r = [])"
  "is_file (Some (Dir l st es)) [] = False"
  "is_file (Some (Dir l st es)) (x # r) = is_file (map_of es x) r"
  by (cases r; simp add: is_file_def)+

lemma map_of_absent: "x \<notin> fst ` set es \<Longrightarrow> map_of es x = None"
  by (simp add: map_of_eq_None_iff)

lemma files_mem:
  "files_in n pre = Inr fs \<Longrightarrow> names_distinct n \<Longrightarrow>
     (p \<in> set fs) = (\<exists>r. p = pre @ r \<and> is_file (Some n) r)"
  "files_of_entries es pre = Inr fs \<Longrightarrow> distinct (map fst es) \<Longrightarrow> entries_distinct es \<Longrightarrow>
     (p \<in> set fs) = (\<exists>x r. p = pre @ x # r \<and> is_file (map_of es x) r)"
proof (induction n pre and es pre arbitrary: fs p and fs p rule: files_in_files_of_entries.induct)
  case (1 c m a dirPath)
  then show ?case by simp
next
  case (2 listable st es dirPath)
  from 2(2) have l: listable and fs: "files_of_entries es dirPath = Inr fs"
    by (auto split: if_splits)
  from 2(3) have d: "distinct (map fst es)" "entries_distinct es" by auto
  have "(\<exists>r. p = dirPath @ r \<and> is_file (Some (Dir listable st es)) r)
      = (\<exists>x r. p = dirPath @ x # r \<and> is_file (map_of es x) r)"
    (is "?L = ?R")
  proof
    assume ?L
    then obtain r where r: "p = dirPath @ r" "is_file (Some (Dir listable st es)) r" by blast
    then show ?R by (cases r) auto
  next
    assume ?R
    then obtain x r where "p = dirPath @ x # r" "is_file (map_of es x) r" by blast
    then have "p = dirPath @ (x # r) \<and> is_file (Some (Dir listable st es)) (x # r)" by simp
    then show ?L by blast
  qed
  with 2(1) [OF l fs d] show ?case by simp
next
  case (3 dirPath)
  then show ?case by simp
next
  case (4 name c m a es dirPath)
  from 4(2) obtain fs' where fs': "files_of_entries es dirPath = Inr fs'"
    and fs: "fs = (dirPath @ [name]) # fs'"
    by (auto split: sum.splits)
  from 4(3,4) have d: "distinct (map fst es)" "entries_distinct es" and nm: "name \<notin> fst ` set es"
    by auto
  note ih = 4(1) [OF fs' d, of p]
  have "map_of es name = None" using nm by (rule map_of_absent)
  then show ?case
    unfolding fs using ih by (auto split: if_splits)
next
  case (5 name l st sub es dirPath)
  from 5(3) obtain subFiles fs' where
    sub: "files_in (Dir l st sub) (dirPath @ [name]) = Inr subFiles" and
    fs': "files_of_entries es dirPath = Inr fs'" and fs: "fs = subFiles @ fs'"
    by (auto split: sum.splits)
  from 5(4,5) have d: "distinct (map fst es)" "entries_distinct es" and nm: "name \<notin> fst ` set es"
    and nd: "names_distinct (Dir l st sub)"
    by auto
  note ih1 = 5(1) [OF sub nd, of p]
  note ih2 = 5(2) [OF sub fs' d, of p]
  have none: "map_of es name = None" using nm by (rule map_of_absent)
  have key: "x \<noteq> name" if "is_file (map_of es x) r" for x r
    using that none by auto
  have "(p \<in> set fs) = ((\<exists>r. p = dirPath @ name # r \<and> is_file (Some (Dir l st sub)) r)
      \<or> (\<exists>x r. p = dirPath @ x # r \<and> is_file (map_of es x) r))"
    unfolding fs using ih1 ih2 by simp
  also have "\<dots> = (\<exists>x r. p = dirPath @ x # r
      \<and> is_file (map_of ((name, Dir l st sub) # es) x) r)"
    (is "?L = ?R")
  proof
    assume ?L
    then show ?R
    proof
      assume "\<exists>r. p = dirPath @ name # r \<and> is_file (Some (Dir l st sub)) r"
      then obtain r where "p = dirPath @ name # r" "is_file (Some (Dir l st sub)) r" by blast
      then have "p = dirPath @ name # r
        \<and> is_file (map_of ((name, Dir l st sub) # es) name) r" by simp
      then show ?R by blast
    next
      assume "\<exists>x r. p = dirPath @ x # r \<and> is_file (map_of es x) r"
      then obtain x r where xr: "p = dirPath @ x # r" "is_file (map_of es x) r" by blast
      with key [OF xr(2)] have "p = dirPath @ x # r
        \<and> is_file (map_of ((name, Dir l st sub) # es) x) r" by simp
      then show ?R by blast
    qed
  next
    assume ?R
    then obtain x r where xr: "p = dirPath @ x # r"
      "is_file (map_of ((name, Dir l st sub) # es) x) r" by blast
    show ?L
    proof (cases "x = name")
      case True
      with xr show ?thesis by auto
    next
      case False
      with xr show ?thesis by auto
    qed
  qed
  finally show ?case .
qed

lemma getFiles_mem:
  assumes "getFilesRecursively t = Inr fs" and "good t"
  shows "(p \<in> set fs) = is_file t p"
proof (cases t)
  case None
  with assms show ?thesis by (simp add: getFilesRecursively_def)
next
  case (Some n)
  with assms have "files_in n [] = Inr fs" "names_distinct n"
    by (auto simp: getFilesRecursively_def good_def)
  from files_mem(1) [OF this, of p] Some show ?thesis by simp
qed

lemma getFiles_listable:
  assumes "getFilesRecursively t = Inr fs"
  shows "case t of None \<Rightarrow> True | Some n \<Rightarrow> all_listable n"
proof (cases t)
  case None
  then show ?thesis by simp
next
  case (Some n)
  with assms have "files_in n [] = Inr fs" by (simp add: getFilesRecursively_def)
  with files_in_unlistable(1) [of n "[]"] have "all_listable n" by (cases "all_listable n") auto
  with Some show ?thesis by simp
qed

lemma files_antichain:
  assumes "is_file t a" and "is_file t b" and "prefix a b"
  shows "a = b"
proof (rule ccontr)
  assume "a \<noteq> b"
  with assms(3) have sp: "strict_prefix a b" by (simp add: strict_prefix_def)
  from assms(1) obtain c m x where "lookup t a = Inr (File c m x)" by (auto simp: is_file_iff)
  from lookup_through_file [OF this sp] assms(2) show False by (simp add: is_file_iff)
qed

lemma copy_loop_ConsE:
  assumes "copy_loop cfg now src (rel # rest) dst cc sc = Returned res d"
  obtains d1 cc1 sc1 where "copy_step cfg now src rel dst d1"
    "copy_loop cfg now src rest d1 cc1 sc1 = Returned res d"
    "sc1 = (if copy_excluded cfg rel = Inr True then Suc sc else sc)"
    "cc1 = (if d1 = dst then cc else Suc cc) \<or> cc1 = Suc cc"
    "cc1 = cc \<or> cc1 = Suc cc \<and> copy_excluded cfg rel = Inr False
        \<and> filesAreDifferent src rel dst rel"
  using assms
  by (auto simp: copy_step_def copy_excluded_def
      split: sum.splits bool.splits if_splits outcome.splits)

lemma copy_step_stat:
  "copy_step cfg now src rel dst d \<Longrightarrow> \<not> prefix rel p \<Longrightarrow> stat dst p = Inr s \<Longrightarrow> stat d p = Inr s"
  by (auto simp: copy_step_def dest: copyFile_stat_other)

lemma copy_step_files:
  "copy_step cfg now src rel dst d \<Longrightarrow> is_file d p \<Longrightarrow> p = rel \<or> is_file dst p"
  by (auto simp: copy_step_def dest: copyFile_no_new_file)

lemma copy_step_good: "copy_step cfg now src rel dst d \<Longrightarrow> good dst \<Longrightarrow> good d"
  by (auto simp: copy_step_def dest: copyFile_good)

lemma copy_step_root:
  "copy_step cfg now src rel dst d \<Longrightarrow> root_dir dst \<Longrightarrow> rel \<noteq> [] \<Longrightarrow> root_dir d"
  by (auto simp: copy_step_def dest: copyFile_root)

lemma copy_step_synced:
  "copy_step cfg now src rel dst d \<Longrightarrow> copy_excluded cfg rel = Inr False \<Longrightarrow>
   \<not> filesAreDifferent src rel d rel"
  by (auto simp: copy_step_def dest: copyFile_synced)

lemma copy_loop_stat:
  "copy_loop cfg now src fs dst cc sc = Returned res d \<Longrightarrow>
   \<forall>rel \<in> set fs. \<not> prefix rel p \<Longrightarrow> stat dst p = Inr s \<Longrightarrow> stat d p = Inr s"
proof (induction fs arbitrary: dst cc sc)
  case Nil
  then show ?case by simp
next
  case (Cons rel rest)
  from Cons.prems(1) obtain d1 cc1 sc1 where
    step: "copy_step cfg now src rel dst d1" and
    loop: "copy_loop cfg now src rest d1 cc1 sc1 = Returned res d"
    by (rule copy_loop_ConsE)
  have "stat d1 p = Inr s"
    using copy_step_stat [OF step _ Cons.prems(3)] Cons.prems(2) by simp
  with Cons.IH [OF loop] Cons.prems(2) show ?case by simp
qed

lemma copy_loop_files:
  "copy_loop cfg now src fs dst cc sc = Returned res d \<Longrightarrow> is_file d p \<Longrightarrow>
   p \<in> set fs \<or> is_file dst p"
proof (induction fs arbitrary: dst cc sc)
  case Nil
  then show ?case by simp
next
  case (Cons rel rest)
  from Cons.prems(1) obtain d1 cc1 sc1 where
    step: "copy_step cfg now src rel dst d1" and
    loop: "copy_loop cfg now src rest d1 cc1 sc1 = Returned res d"
    by (rule copy_loop_ConsE)
  from Cons.IH [OF loop Cons.prems(2)] copy_step_files [OF step, of p] show ?case by auto
qed

lemma copy_loop_good:
  "copy_loop cfg now src fs dst cc sc = Returned res d \<Longrightarrow> good dst \<Longrightarrow> good d"
proof (induction fs arbitrary: dst cc sc)
  case Nil
  then show ?case by simp
next
  case (Cons rel rest)
  from Cons.prems(1) obtain d1 cc1 sc1 where
    step: "copy_step cfg now src rel dst d1" and
    loop: "copy_loop cfg now src rest d1 cc1 sc1 = Returned res d"
    by (rule copy_loop_ConsE)
  from Cons.IH [OF loop copy_step_good [OF step Cons.prems(2)]] show ?case .
qed

lemma copy_loop_root:
  "copy_loop cfg now src fs dst cc sc = Returned res d \<Longrightarrow> root_dir dst \<Longrightarrow> [] \<notin> set fs \<Longrightarrow>
   root_dir d"
proof (induction fs arbitrary: dst cc sc)
  case Nil
  then show ?case by simp
next
  case (Cons rel rest)
  from Cons.prems(1) obtain d1 cc1 sc1 where
    step: "copy_step cfg now src rel dst d1" and
    loop: "copy_loop cfg now src rest d1 cc1 sc1 = Returned res d"
    by (rule copy_loop_ConsE)
  from Cons.prems(3) have "rel \<noteq> []" "[] \<notin> set rest" by auto
  from Cons.IH [OF loop copy_step_root [OF step Cons.prems(2) this(1)] this(2)] show ?case .
qed

lemma copy_loop_no_error:
  "copy_loop cfg now src fs dst cc sc = Returned res d \<Longrightarrow>
   \<forall>rel \<in> set fs. \<exists>b. copy_excluded cfg rel = Inr b"
proof (induction fs arbitrary: dst cc sc)
  case Nil
  then show ?case by simp
next
  case (Cons rel rest)
  from Cons.prems(1) obtain d1 cc1 sc1 where
    step: "copy_step cfg now src rel dst d1" and
    loop: "copy_loop cfg now src rest d1 cc1 sc1 = Returned res d"
    by (rule copy_loop_ConsE)
  from Cons.IH [OF loop] step show ?case by (auto simp: copy_step_def)
qed

lemma copy_loop_synced:
  "copy_loop cfg now src fs dst cc sc = Returned res d \<Longrightarrow>
   \<forall>a \<in> set fs. \<forall>b \<in> set fs. prefix a b \<longrightarrow> a = b \<Longrightarrow>
   rel \<in> set fs \<Longrightarrow> copy_excluded cfg rel = Inr False \<Longrightarrow>
   \<not> filesAreDifferent src rel d rel"
proof (induction fs arbitrary: dst cc sc)
  case Nil
  then show ?case by simp
next
  case (Cons x rest)
  from Cons.prems(1) obtain d1 cc1 sc1 where
    step: "copy_step cfg now src x dst d1" and
    loop: "copy_loop cfg now src rest d1 cc1 sc1 = Returned res d"
    by (rule copy_loop_ConsE)
  from Cons.prems(2) have anti: "\<forall>a \<in> set rest. \<forall>b \<in> set rest. prefix a b \<longrightarrow> a = b" by simp
  show ?case
  proof (cases "rel \<in> set rest")
    case True
    from Cons.IH [OF loop anti True Cons.prems(4)] show ?thesis .
  next
    case False
    with Cons.prems(3) have x: "x = rel" by simp
    from copy_step_synced [OF step] x Cons.prems(4)
    have now_synced: "\<not> filesAreDifferent src rel d1 rel" by simp
    then obtain s where s: "stat d1 rel = Inr s"
      by (auto simp: filesAreDifferent_def split: sum.splits)
    have "\<forall>r \<in> set rest. \<not> prefix r rel"
      using Cons.prems(2) False x by auto
    from copy_loop_stat [OF loop this s] have "stat d rel = Inr s" .
    with s now_synced show ?thesis by (simp add: filesAreDifferent_def split: sum.splits)
  qed
qed

lemma copy_loop_skipped:
  "copy_loop cfg now src fs dst cc sc = Returned (cc', sc') d \<Longrightarrow>
   sc' = sc + length (filter (\<lambda>rel. copy_excluded cfg rel = Inr True) fs)"
proof (induction fs arbitrary: dst cc sc)
  case Nil
  then show ?case by simp
next
  case (Cons rel rest)
  from Cons.prems(1) obtain d1 cc1 sc1 where
    loop: "copy_loop cfg now src rest d1 cc1 sc1 = Returned (cc', sc') d" and
    sc1: "sc1 = (if copy_excluded cfg rel = Inr True then Suc sc else sc)"
    by (rule copy_loop_ConsE)
  from Cons.IH [OF loop] sc1 show ?case by simp
qed

lemma copy_loop_noop:
  "\<forall>rel \<in> set fs. copy_excluded cfg rel = Inr True
      \<or> copy_excluded cfg rel = Inr False \<and> \<not> filesAreDifferent src rel dst rel \<Longrightarrow>
   copy_loop cfg now src fs dst cc sc =
     Returned (cc, sc + length (filter (\<lambda>rel. copy_excluded cfg rel = Inr True) fs)) dst"
  by (induction fs arbitrary: sc) (auto simp: copy_excluded_def)

lemma delete_loop_ConsE:
  assumes "delete_loop cfg sourceFiles (rel # rest) dst dc = Returned dc' d"
  obtains d1 dc1 where "delete_step cfg sourceFiles rel dst d1"
    "delete_loop cfg sourceFiles rest d1 dc1 = Returned dc' d"
    "dc1 = (if rel \<notin> set sourceFiles \<and> delete_excluded cfg rel = Inr False then Suc dc else dc)"
  using assms
  by (auto simp: delete_step_def delete_excluded_def
      split: sum.splits bool.splits if_splits)

lemma delete_step_stat:
  "delete_step cfg sourceFiles rel dst d \<Longrightarrow> p \<in> set sourceFiles \<or> p \<noteq> rel \<Longrightarrow>
   stat dst p = Inr s \<Longrightarrow> stat d p = Inr s"
  by (auto simp: delete_step_def dest: unlink_stat_other)

lemma delete_step_files: "delete_step cfg sourceFiles rel dst d \<Longrightarrow> is_file d p \<Longrightarrow> is_file dst p"
  by (auto simp: delete_step_def dest: unlink_no_new_file)

lemma delete_step_good: "delete_step cfg sourceFiles rel dst d \<Longrightarrow> good dst \<Longrightarrow> good d"
  by (auto simp: delete_step_def dest: unlink_good)

lemma unlink_root:
  assumes "unlink t q = Inr t'" and "root_dir t"
  shows "root_dir t'"
proof (cases q)
  case Nil
  with assms show ?thesis
    by (auto simp: unlink_def root_dir_def split: option.splits node.splits)
next
  case (Cons x q')
  then have "q \<noteq> []" by simp
  from alter_root [OF assms(1) [unfolded unlink_def] assms(2) this] show ?thesis .
qed

lemma delete_step_root: "delete_step cfg sourceFiles rel dst d \<Longrightarrow> root_dir dst \<Longrightarrow> root_dir d"
  by (auto simp: delete_step_def dest: unlink_root)

lemma delete_loop_stat:
  "delete_loop cfg sourceFiles fs dst dc = Returned dc' d \<Longrightarrow>
   p \<in> set sourceFiles \<or> p \<notin> set fs \<Longrightarrow> stat dst p = Inr s \<Longrightarrow> stat d p = Inr s"
proof (induction fs arbitrary: dst dc)
  case Nil
  then show ?case by simp
next
  case (Cons rel rest)
  from Cons.prems(1) obtain d1 dc1 where
    step: "delete_step cfg sourceFiles rel dst d1" and
    loop: "delete_loop cfg sourceFiles rest d1 dc1 = Returned dc' d"
    by (rule delete_loop_ConsE)
  have "stat d1 p = Inr s"
    using delete_step_stat [OF step _ Cons.prems(3)] Cons.prems(2) by auto
  with Cons.IH [OF loop] Cons.prems(2) show ?case by auto
qed

lemma delete_loop_files:
  "delete_loop cfg sourceFiles fs dst dc = Returned dc' d \<Longrightarrow> is_file d p \<Longrightarrow> is_file dst p"
proof (induction fs arbitrary: dst dc)
  case Nil
  then show ?case by simp
next
  case (Cons rel rest)
  from Cons.prems(1) obtain d1 dc1 where
    step: "delete_step cfg sourceFiles rel dst d1" and
    loop: "delete_loop cfg sourceFiles rest d1 dc1 = Returned dc' d"
    by (rule delete_loop_ConsE)
  from delete_step_files [OF step Cons.IH [OF loop Cons.prems(2)]] show ?case .
qed

lemma delete_loop_good:
  "delete_loop cfg sourceFiles fs dst dc = Returned dc' d \<Longrightarrow> good dst \<Longrightarrow> good d"
proof (induction fs arbitrary: dst dc)
  case Nil
  then show ?case by simp
next
  case (Cons rel rest)
  from Cons.prems(1) obtain d1 dc1 where
    step: "delete_step cfg sourceFiles rel dst d1" and
    loop: "delete_loop cfg sourceFiles rest d1 dc1 = Returned dc' d"
    by (rule delete_loop_ConsE)
  from Cons.IH [OF loop delete_step_good [OF step Cons.prems(2)]] show ?case .
qed

lemma delete_loop_root:
  "delete_loop cfg sourceFiles fs dst dc = Returned dc' d \<Longrightarrow> root_dir dst \<Longrightarrow> root_dir d"
proof (induction fs arbitrary: dst dc)
  case Nil
  then show ?case by simp
next
  case (Cons rel rest)
  from Cons.prems(1) obtain d1 dc1 where
    step: "delete_step cfg sourceFiles rel dst d1" and
    loop: "delete_loop cfg sourceFiles rest d1 dc1 = Returned dc' d"
    by (rule delete_loop_ConsE)
  from Cons.IH [OF loop delete_step_root [OF step Cons.prems(2)]] show ?case .
qed

lemma delete_loop_kept:
  "delete_loop cfg sourceFiles fs dst dc = Returned dc' d \<Longrightarrow> is_file d p \<Longrightarrow>
   p \<in> set fs \<Longrightarrow> p \<notin> set sourceFiles \<Longrightarrow> delete_excluded cfg p = Inr True"
proof (induction fs arbitrary: dst dc)
  case Nil
  then show ?case by simp
next
  case (Cons rel rest)
  from Cons.prems(1) obtain d1 dc1 where
    step: "delete_step cfg sourceFiles rel dst d1" and
    loop: "delete_loop cfg sourceFiles rest d1 dc1 = Returned dc' d"
    by (rule delete_loop_ConsE)
  show ?case
  proof (cases "p = rel")
    case True
    have "is_file d1 p" using delete_loop_files [OF loop Cons.prems(2)] .
    with step True Cons.prems(4) show ?thesis
      by (auto simp: delete_step_def dest: unlink_no_new_file)
  next
    case False
    with Cons.prems(3) have "p \<in> set rest" by simp
    from Cons.IH [OF loop Cons.prems(2) this Cons.prems(4)] show ?thesis .
  qed
qed

lemma delete_loop_noop:
  "\<forall>rel \<in> set fs. rel \<in> set sourceFiles \<or> delete_excluded cfg rel = Inr True \<Longrightarrow>
   delete_loop cfg sourceFiles fs dst dc = Returned dc dst"
  by (induction fs) (auto simp: delete_excluded_def)

lemma delete_loop_count:
  "delete_loop cfg sourceFiles fs dst dc = Returned dc' d \<Longrightarrow>
   dc' = dc + length (filter (\<lambda>rel. rel \<notin> set sourceFiles \<and> delete_excluded cfg rel = Inr False) fs)"
proof (induction fs arbitrary: dst dc)
  case Nil
  then show ?case by simp
next
  case (Cons rel rest)
  from Cons.prems(1) obtain d1 dc1 where
    loop: "delete_loop cfg sourceFiles rest d1 dc1 = Returned dc' d" and
    dc1: "dc1 = (if rel \<notin> set sourceFiles \<and> delete_excluded cfg rel = Inr False then Suc dc else dc)"
    by (rule delete_loop_ConsE)
  from Cons.IH [OF loop] dc1 show ?case by simp
qed

lemma cleanup_directory_cases:
  "cleanup_directory src t q = t
   \<or> (\<exists>e. lookup src q = Inl e) \<and> rmdir t q = Inr (cleanup_directory src t q)"
  by (auto simp: cleanup_directory_def access_def split: sum.splits)

lemma rmdir_root: "rmdir t q = Inr t' \<Longrightarrow> root_dir t \<Longrightarrow> q \<noteq> [] \<Longrightarrow> root_dir t'"
  unfolding rmdir_def by (rule alter_root)

lemma cleanup_directory_stat:
  assumes "stat t p = Inr s" and "lookup src p = Inr n"
  shows "stat (cleanup_directory src t q) p = Inr s"
  using cleanup_directory_cases [of src t q]
proof
  assume "cleanup_directory src t q = t"
  with assms(1) show ?thesis by simp
next
  assume a: "(\<exists>e. lookup src q = Inl e) \<and> rmdir t q = Inr (cleanup_directory src t q)"
  with assms(2) have "p \<noteq> q" by auto
  from rmdir_stat_other [OF conjunct2 [OF a] this assms(1)] show ?thesis .
qed

lemma cleanup_directory_files: "is_file (cleanup_directory src t q) p \<Longrightarrow> is_file t p"
  using cleanup_directory_cases [of src t q]
  by (auto dest: rmdir_no_new_file)

lemma cleanup_directory_good: "good t \<Longrightarrow> good (cleanup_directory src t q)"
  using cleanup_directory_cases [of src t q]
  by (auto dest: rmdir_good)

lemma cleanup_directory_root:
  "root_dir t \<Longrightarrow> src \<noteq> None \<Longrightarrow> root_dir (cleanup_directory src t q)"
  using cleanup_directory_cases [of src t q]
  by (cases q) (auto dest: rmdir_root)

lemma cleanup_fold_stat:
  "stat t p = Inr s \<Longrightarrow> lookup src p = Inr n \<Longrightarrow>
   stat (foldl (cleanup_directory src) t qs) p = Inr s"
  by (induction qs arbitrary: t) (auto dest: cleanup_directory_stat)

lemma cleanup_fold_files: "is_file (foldl (cleanup_directory src) t qs) p \<Longrightarrow> is_file t p"
  by (induction qs arbitrary: t) (auto dest: cleanup_directory_files)

lemma cleanup_fold_good: "good t \<Longrightarrow> good (foldl (cleanup_directory src) t qs)"
  by (induction qs arbitrary: t) (auto dest: cleanup_directory_good)

lemma cleanup_fold_root:
  "root_dir t \<Longrightarrow> src \<noteq> None \<Longrightarrow> root_dir (foldl (cleanup_directory src) t qs)"
  by (induction qs arbitrary: t) (auto dest: cleanup_directory_root)

lemma cleanup_total:
  assumes "good t" and "root_dir t"
  shows "\<exists>ds. getDirectoriesRecursively t = Inr ds
    \<and> cleanupEmptyDirectories t src =
        Inr (foldl (cleanup_directory src) t (sort_deepest_first ds))"
proof -
  from assms obtain l st es where t: "t = Some (Dir l st es)" and "all_listable (Dir l st es)"
    by (auto simp: root_dir_def good_def split: option.splits node.splits)
  with dirs_in_total(1) [of "Dir l st es" "[]"] obtain ds where "dirs_in (Dir l st es) [] = Inr ds"
    by auto
  with t show ?thesis
    by (simp add: getDirectoriesRecursively_def cleanupEmptyDirectories_def)
qed

lemma alter_file_other:
  assumes "alter fill f t q = Inr t'" and "lookup t p = Inr (File c m a)" and "\<not> prefix q p"
  shows "lookup t' p = Inr (File c m a)"
proof (cases "prefix p q")
  case True
  with assms(3) have "strict_prefix p q" by (auto simp: strict_prefix_def)
  from alter_ancestor [OF assms(1) this] assms(2) show ?thesis by auto
next
  case False
  from alter_other [OF assms(1) assms(3) False] assms(2) show ?thesis by simp
qed

lemma mkdir_file:
  "mkdir_recursive now t q = Inr t' \<Longrightarrow> lookup t p = Inr (File c m a) \<Longrightarrow>
   lookup t' p = Inr (File c m a)"
  by (drule mkdir_kept [where p = p]) auto

lemma copyFile_file_other:
  assumes "copyFile now src sp dst dp = Returned u d" and "lookup dst p = Inr (File c m a)"
    and "p \<noteq> dp"
  shows "lookup d p = Inr (File c m a)"
proof -
  from assms(1) obtain d1 d2 c' m' a' where
    mk: "mkdir_recursive now dst (butlast dp) = Inr d1" and
    src: "lookup src sp = Inr (File c' m' a')" and
    cp: "fs_copyFile now src sp d1 dp = Inr d2" and
    ut: "utimes d2 dp a' m' = Inr d"
    by (rule copyFile_ReturnedE)
  have f1: "lookup d1 p = Inr (File c m a)" using mkdir_file [OF mk assms(2)] .
  from cp src have cp': "alter None
      (\<lambda>t. case t of None \<Rightarrow> Inr (Some (File c' now now))
        | Some (File c'' m'' a'') \<Rightarrow> Inr (Some (File c' now a''))
        | Some (Dir l st es) \<Rightarrow> Inl EISDIR) d1 dp = Inr d2"
    by (simp add: fs_copyFile_def)
  have np: "\<not> prefix dp p"
  proof
    assume "prefix dp p"
    with assms(3) obtain p' where p': "p = dp @ p'" "p' \<noteq> []" by (auto elim!: prefixE)
    with f1 have below: "lookup (node_at d1 dp) p' = Inr (File c m a)" by (simp add: lookup_below)
    then obtain nq where nq: "node_at d1 dp = Some nq" by (cases "node_at d1 dp") auto
    with below p'(2) obtain l st es where "nq = Dir l st es"
      by (cases nq; cases p') auto
    with alter_at [OF cp'] nq show False by simp
  qed
  have f2: "lookup d2 p = Inr (File c m a)" using alter_file_other [OF cp' f1 np] .
  show ?thesis using alter_file_other [OF ut [unfolded utimes_def] f2 np] .
qed

lemma unlink_file_other:
  assumes "unlink t q = Inr t'" and "lookup t p = Inr (File c m a)" and "p \<noteq> q"
  shows "lookup t' p = Inr (File c m a)"
proof -
  have "\<not> prefix q p"
  proof
    assume "prefix q p"
    with files_antichain [OF unlink_was_file [OF assms(1)], of p] assms(2,3) show False
      by (auto simp: is_file_iff)
  qed
  from alter_file_other [OF assms(1) [unfolded unlink_def] assms(2) this] show ?thesis .
qed

lemma rmdir_file_other:
  assumes "rmdir t q = Inr t'" and "lookup t p = Inr (File c m a)"
  shows "lookup t' p = Inr (File c m a)"
proof -
  from rmdir_was_empty [OF assms(1)] obtain l st where q: "lookup t q = Inr (Dir l st [])" by blast
  have "\<not> prefix q p"
  proof
    assume "prefix q p"
    with q assms(2) have "strict_prefix q p" by (auto simp: strict_prefix_def)
    from lookup_through_empty [OF q this] assms(2) show False by simp
  qed
  from alter_file_other [OF assms(1) [unfolded rmdir_def] assms(2) this] show ?thesis .
qed

lemma copy_loop_file_kept:
  "copy_loop cfg now src fs dst cc sc = Returned res d \<Longrightarrow> lookup dst p = Inr (File c m a) \<Longrightarrow>
   p \<notin> set fs \<or> copy_excluded cfg p = Inr True \<Longrightarrow> lookup d p = Inr (File c m a)"
proof (induction fs arbitrary: dst cc sc)
  case Nil
  then show ?case by simp
next
  case (Cons rel rest)
  from Cons.prems(1) obtain d1 cc1 sc1 where
    step: "copy_step cfg now src rel dst d1" and
    loop: "copy_loop cfg now src rest d1 cc1 sc1 = Returned res d"
    by (rule copy_loop_ConsE)
  have "lookup d1 p = Inr (File c m a)"
    using step Cons.prems(2,3)
    by (auto simp: copy_step_def dest: copyFile_file_other)
  with Cons.IH [OF loop] Cons.prems(3) show ?case by auto
qed

lemma delete_loop_file_kept:
  "delete_loop cfg sourceFiles fs dst dc = Returned dc' d \<Longrightarrow> lookup dst p = Inr (File c m a) \<Longrightarrow>
   p \<in> set sourceFiles \<or> p \<notin> set fs \<or> delete_excluded cfg p = Inr True \<Longrightarrow>
   lookup d p = Inr (File c m a)"
proof (induction fs arbitrary: dst dc)
  case Nil
  then show ?case by simp
next
  case (Cons rel rest)
  from Cons.prems(1) obtain d1 dc1 where
    step: "delete_step cfg sourceFiles rel dst d1" and
    loop: "delete_loop cfg sourceFiles rest d1 dc1 = Returned dc' d"
    by (rule delete_loop_ConsE)
  have "lookup d1 p = Inr (File c m a)"
    using step Cons.prems(2,3)
    by (auto simp: delete_step_def dest: unlink_file_other)
  with Cons.IH [OF loop] Cons.prems(3) show ?case by auto
qed

lemma cleanup_directory_file_kept:
  "lookup t p = Inr (File c m a) \<Longrightarrow> lookup (cleanup_directory src t q) p = Inr (File c m a)"
  using cleanup_directory_cases [of src t q]
  by (auto dest: rmdir_file_other)

lemma cleanup_fold_file_kept:
  "lookup t p = Inr (File c m a) \<Longrightarrow>
   lookup (foldl (cleanup_directory src) t qs) p = Inr (File c m a)"
  by (induction qs arbitrary: t) (auto dest: cleanup_directory_file_kept)

lemma alter_total:
  "lookup t q = Inr n \<Longrightarrow> f (Some n) = Inr r \<Longrightarrow> \<exists>t'. alter None f t q = Inr t'"
proof (induction t q rule: lookup.induct)
  case (4 l st es x p)
  then show ?case by (auto split: sum.splits)
qed auto

lemma cleanup_directory_removes:
  assumes "lookup src q = Inl e" and "readdir t q = Inr []"
  shows "lookup (cleanup_directory src t q) q = Inl ENOENT"
proof -
  from assms(2) obtain st where q: "lookup t q = Inr (Dir True st [])"
    by (auto simp: readdir_def split: sum.splits node.splits if_splits)
  from alter_total [OF q, of "\<lambda>c. case c of None \<Rightarrow> Inl ENOENT
      | Some (File content m a) \<Rightarrow> Inl ENOTDIR
      | Some (Dir l st es) \<Rightarrow> if es = [] then Inr None else Inl ENOTEMPTY" None]
  obtain t' where t': "rmdir t q = Inr t'" by (auto simp: rmdir_def)
  with assms have "cleanup_directory src t q = t'"
    by (simp add: cleanup_directory_def access_def)
  moreover from rmdir_gone [OF t'] alter_at_lookup [OF t' [unfolded rmdir_def]]
  have "lookup t' q = Inl ENOENT" by simp
  ultimately show ?thesis by simp
qed

lemma cleanup_directory_keeps:
  "lookup src q = Inr n \<or> readdir t q \<noteq> Inr [] \<Longrightarrow> cleanup_directory src t q = t"
  by (auto simp: cleanup_directory_def access_def split: sum.splits list.splits)

lemma sync_ReturnedE:
  assumes "sync cfg now src dst = Returned r d"
  obtains n d0 sourceFiles destFiles cc sc d1 dc d2 where
    "src = Some n"
    "mkdir_recursive now dst [] = Inr d0"
    "getFilesRecursively src = Inr sourceFiles"
    "getFilesRecursively d0 = Inr destFiles"
    "copy_loop cfg now src sourceFiles d0 0 0 = Returned (cc, sc) d1"
    "delete_loop cfg sourceFiles destFiles d1 0 = Returned dc d2"
    "cleanupEmptyDirectories d2 src = Inr d"
    "r = \<lparr>copied = cc, deleted = dc, skipped = sc\<rparr>"
proof -
  from assms obtain n where n: "src = Some n"
    by (cases src) (auto simp: sync_def access_def)
  from assms n obtain d0 where d0: "mkdir_recursive now dst [] = Inr d0"
    by (auto simp: sync_def access_def split: sum.splits)
  from assms n d0 obtain sourceFiles where sf: "getFilesRecursively src = Inr sourceFiles"
    by (auto simp: sync_def access_def split: sum.splits)
  from assms n d0 sf obtain destFiles where df: "getFilesRecursively d0 = Inr destFiles"
    by (auto simp: sync_def access_def split: sum.splits)
  from assms n d0 sf df obtain cc sc d1 where
    cl: "copy_loop cfg now src sourceFiles d0 0 0 = Returned (cc, sc) d1"
    by (auto simp: sync_def access_def split: sum.splits outcome.splits)
  from assms n d0 sf df cl obtain dc d2 where
    dl: "delete_loop cfg sourceFiles destFiles d1 0 = Returned dc d2"
    by (auto simp: sync_def access_def split: sum.splits outcome.splits)
  from assms n d0 sf df cl dl have
    "cleanupEmptyDirectories d2 src = Inr d" "r = \<lparr>copied = cc, deleted = dc, skipped = sc\<rparr>"
    by (auto simp: sync_def access_def split: sum.splits outcome.splits)
  with n d0 sf df cl dl show ?thesis by (rule that)
qed

lemma copy_loop_copied:
  "copy_loop cfg now src fs dst cc sc = Returned (cc', sc') d \<Longrightarrow>
   cc' \<le> cc + length (filter (\<lambda>rel. copy_excluded cfg rel = Inr False) fs)"
proof (induction fs arbitrary: dst cc sc)
  case Nil
  then show ?case by simp
next
  case (Cons rel rest)
  from Cons.prems(1) obtain d1 cc1 sc1 where
    loop: "copy_loop cfg now src rest d1 cc1 sc1 = Returned (cc', sc') d" and
    cc1: "cc1 = cc \<or> cc1 = Suc cc \<and> copy_excluded cfg rel = Inr False
        \<and> filesAreDifferent src rel dst rel"
    by (rule copy_loop_ConsE)
  from Cons.IH [OF loop] cc1 show ?case by auto
qed

lemma split_on_plain:
  "sep \<notin> set w \<Longrightarrow> split_on sep w = [w]"
  "sep \<notin> set w \<Longrightarrow> split_on sep (w @ sep # s) = w # split_on sep s"
  by (induction w) auto

lemma depth_length:
  "p \<noteq> [] \<Longrightarrow> \<forall>name \<in> set p. CHR ''/'' \<notin> set name \<Longrightarrow> depth p = length p"
proof (induction p rule: render.induct)
  case 1
  then show ?case by simp
next
  case (2 name)
  then show ?case by (simp add: depth_def split_on_plain)
next
  case (3 name v va)
  then show ?case by (simp add: depth_def split_on_plain)
qed

lemma sort_deepest_first_sorted:
  "sorted_wrt (\<lambda>a b. depth b \<le> depth a) (sort_deepest_first ds)"
proof -
  have "sorted (map (\<lambda>d. - int (depth d)) (sort_deepest_first ds))"
    unfolding sort_deepest_first_def by (rule sorted_sort_key)
  then show ?thesis by (simp add: sorted_map)
qed

lemma files_nonempty:
  "files_in n pre = Inr fs \<Longrightarrow> [] \<notin> set fs"
  "files_of_entries es pre = Inr fs \<Longrightarrow> [] \<notin> set fs"
  by (induction n pre and es pre arbitrary: fs and fs rule: files_in_files_of_entries.induct)
     (auto split: sum.splits if_splits)

lemma sync_cleanup_returns:
  assumes "tree_distinct dst"
    and mk: "mkdir_recursive now dst [] = Inr d0"
    and sf: "getFilesRecursively src = Inr sourceFiles"
    and df: "getFilesRecursively d0 = Inr destFiles"
    and cl: "copy_loop cfg now src sourceFiles d0 0 0 = Returned (cc, sc) d1"
    and dl: "delete_loop cfg sourceFiles destFiles d1 0 = Returned dc d2"
  shows "\<exists>d3. cleanupEmptyDirectories d2 src = Inr d3"
proof -
  have root0: "root_dir d0" and dist0: "tree_distinct d0"
    using mk assms(1)
    by (auto simp: mkdir_recursive_def root_dir_def tree_distinct_def
        split: option.splits node.splits)
  have good0: "good d0"
    using dist0 getFiles_listable [OF df]
    by (auto simp: good_def tree_distinct_def split: option.splits)
  have no_root: "[] \<notin> set sourceFiles"
    using sf files_nonempty(1) by (auto simp: getFilesRecursively_def split: option.splits)
  have "good d2" using delete_loop_good [OF dl copy_loop_good [OF cl good0]] .
  moreover have "root_dir d2"
    using delete_loop_root [OF dl copy_loop_root [OF cl root0 no_root]] .
  ultimately show ?thesis using cleanup_total [of d2 src] by auto
qed

section \<open>Properties of the pattern matcher\<close>

lemma some_pattern_plain:
  "list_all plain patterns \<Longrightarrow>
   some_pattern filePath patterns = Inr (list_ex (spec_matches filePath) patterns)"
  by (induction patterns) (auto simp: matches_one_plain split: bool.splits)




text \<open>
  C5. The examples of the specification, evaluated on the code. Five of the six hold:
  \<^verbatim>\<open>*.log\<close> matches \<^verbatim>\<open>a.log\<close> and \<^verbatim>\<open>dir/a.log\<close>, \<^verbatim>\<open>temp/*\<close> matches
  \<^verbatim>\<open>temp/a.tmp\<close> and not \<^verbatim>\<open>tempfoo/a.tmp\<close>, and \<^verbatim>\<open>*.LOG\<close> matches \<^verbatim>\<open>file.log\<close>.
  The sixth does not: \<^verbatim>\<open>temp/*\<close> is compiled to \<^verbatim>\<open>^temp/[^/]*$\<close>, whose star cannot cross
  a separator, so the deeper path \<^verbatim>\<open>temp/sub/a.tmp\<close> is not matched, although the
  repository's test "should respect copy exclusions" and its README ("excludes all files
  recursively in temp directories") expect it to be.
\<close>

theorem matchesPattern_spec_examples:
  "matchesPattern ''a.log'' (Some [''*.log'']) = Inr True
   \<and> matchesPattern ''dir/a.log'' (Some [''*.log'']) = Inr True
   \<and> matchesPattern ''temp/a.tmp'' (Some [''temp/*'']) = Inr True
   \<and> matchesPattern ''temp/sub/a.tmp'' (Some [''temp/*'']) = Inr False
   \<and> matchesPattern ''tempfoo/a.tmp'' (Some [''temp/*'']) = Inr False
   \<and> matchesPattern ''file.log'' (Some [''*.LOG'']) = Inr True"
  by code_simp

text \<open>
  C10. The matcher is not total and does not take every character literally. Of the
  characters with a meaning in a regular expression, the compilation rewrites only the
  dot, the star and the question mark (and the backslash, as a separator); the others
  reach \<^verbatim>\<open>new RegExp\<close> as they are. So the patterns \<^verbatim>\<open>(\<close> and \<^verbatim>\<open>[\<close> make
  \<^verbatim>\<open>matchesPattern\<close> throw a SyntaxError; the pattern \<^verbatim>\<open>a+\<close> matches the name
  \<^verbatim>\<open>aa\<close> and not the name \<^verbatim>\<open>a+\<close>; and the pattern \<^verbatim>\<open>a|b\<close> matches \<^verbatim>\<open>axyz\<close>,
  since the alternation splits the anchored expression into \<^verbatim>\<open>^a\<close> and \<^verbatim>\<open>b$\<close>.
  Whatever the path and the patterns, the call either returns a boolean or throws that
  SyntaxError: the compiled source never holds a construct the model of the engine
  leaves out.
\<close>

theorem matchesPattern_regex_metacharacters:
  "matchesPattern filePath patterns \<noteq> Inl OutOfModel
   \<and> regexPattern ''.^$+()[]{}|'' = backslash # ''.^$+()[]{}|''
   \<and> matchesPattern ''x'' (Some [''('']) = Inl SyntaxError
   \<and> matchesPattern ''x'' (Some [''['']) = Inl SyntaxError
   \<and> matchesPattern ''aa'' (Some [''a+'']) = Inr True
   \<and> matchesPattern ''a+'' (Some [''a+'']) = Inr False
   \<and> matchesPattern ''axyz'' (Some [''a|b'']) = Inr True"
proof (rule conjI)
  show "matchesPattern filePath patterns \<noteq> Inl OutOfModel"
    by (rule matchesPattern_in_model)
  show "regexPattern ''.^$+()[]{}|'' = backslash # ''.^$+()[]{}|''
   \<and> matchesPattern ''x'' (Some [''('']) = Inl SyntaxError
   \<and> matchesPattern ''x'' (Some [''['']) = Inl SyntaxError
   \<and> matchesPattern ''aa'' (Some [''a+'']) = Inr True
   \<and> matchesPattern ''a+'' (Some [''a+'']) = Inr False
   \<and> matchesPattern ''axyz'' (Some [''a|b'']) = Inr True"
    by code_simp
qed



section \<open>Properties of the change detector, the walkers and \<^verbatim>\<open>sync\<close>\<close>




text \<open>
  C2. When the source root does not exist, \<^verbatim>\<open>sync\<close> throws the "source missing" error
  and the destination is what it was: the existence probe is the first thing \<^verbatim>\<open>sync\<close>
  does to the file system, before the destination is created or walked.
\<close>

theorem sync_source_missing: "sync cfg now None dst = Thrown SourceMissing dst"
  by (simp add: sync_def access_def)

text \<open>
  C3. The repository's test "should handle non-existent source directory", run on the
  code: the destination keeps its file \<^verbatim>\<open>existing.txt\<close>, but the call throws; it does not
  return the result with three zeros that the test and the claim expect.
\<close>

theorem sync_missing_source_throws:
  "sync (IdaSync \<lparr>opt_copyExclusions = None, opt_deleteExclusions = None, opt_verbose = Some True\<rparr>) 0
      None
      (Some (Dir True \<lparr>st_mtime = 0, st_atime = 0, st_size = 0\<rparr> [(''existing.txt'', File ''should stay'' 0 0)]))
   = Thrown SourceMissing
      (Some (Dir True \<lparr>st_mtime = 0, st_atime = 0, st_size = 0\<rparr> [(''existing.txt'', File ''should stay'' 0 0)]))"
  by (simp add: sync_def access_def)

text \<open>
  C9. Both walkers return the empty list for a root that does not exist. Every other
  error of \<^verbatim>\<open>readdir\<close> leaves the walk as an error and no list is returned: ENOTDIR when
  the root is a regular file, EACCES exactly when some directory of the tree cannot be
  listed, however deep it lies and whatever was collected before it was reached.
\<close>

theorem walkers_errors:
  "getFilesRecursively None = Inr [] \<and> getDirectoriesRecursively None = Inr []
   \<and> getFilesRecursively (Some (File c m a)) = Inl ENOTDIR
   \<and> getDirectoriesRecursively (Some (File c m a)) = Inl ENOTDIR
   \<and> (getFilesRecursively (Some (Dir l st es)) = Inl EACCES) = (\<not> all_listable (Dir l st es))
   \<and> (getDirectoriesRecursively (Some (Dir l st es)) = Inl EACCES) = (\<not> all_listable (Dir l st es))
   \<and> (\<exists>files. getFilesRecursively (Some (Dir l st es)) = Inr files) = all_listable (Dir l st es)
   \<and> (\<exists>dirs. getDirectoriesRecursively (Some (Dir l st es)) = Inr dirs) = all_listable (Dir l st es)
   \<and> getFilesRecursively
        (Some (Dir True st [(''a'', File ''1'' 0 0), (''d'', Dir True st [(''locked'', Dir False st [])])]))
      = Inl EACCES"
proof -
  let ?d = "Dir l st es"
  have f1: "(files_in ?d [] = Inl EACCES) = (\<not> all_listable ?d)"
    using files_in_total(1) [of ?d "[]"] files_in_unlistable(1) [of ?d "[]"]
    by (cases "all_listable ?d") auto
  have f2: "(\<exists>files. files_in ?d [] = Inr files) = all_listable ?d"
    using files_in_total(1) [of ?d "[]"] files_in_unlistable(1) [of ?d "[]"]
    by (cases "all_listable ?d") auto
  have d1: "(dirs_in ?d [] = Inl EACCES) = (\<not> all_listable ?d)"
    using dirs_in_total(1) [of ?d "[]"] dirs_in_unlistable(1) [of ?d "[]"]
    by (cases "all_listable ?d") auto
  have d2: "(\<exists>dirs. dirs_in ?d [] = Inr dirs) = all_listable ?d"
    using dirs_in_total(1) [of ?d "[]"] dirs_in_unlistable(1) [of ?d "[]"]
    by (cases "all_listable ?d") auto
  show ?thesis
    unfolding getFilesRecursively_def getDirectoriesRecursively_def option.case
    using f1 f2 d1 d2 by simp
qed

text \<open>
  C6. For every call of \<^verbatim>\<open>sync\<close> that returns: \<open>skipped\<close> is the number of source files
  matched by a copy exclusion, and nothing else adds to it; \<open>deleted\<close> is the number of
  destination files that are absent from the source and not matched by a delete exclusion;
  \<open>copied\<close> counts only source files that no copy exclusion matches. A round of the copy
  loop on an excluded file passes the destination on as it is and adds one to \<open>skipped\<close>
  only, with no look at the destination; a round of the delete loop on a destination-only
  file matched by a delete exclusion changes neither the destination nor any counter.
  Accordingly a destination file whose source is excluded from copying is after the call
  what it was before, whatever its content and times, and so is a destination-only file
  excluded from deletion.
\<close>

theorem exclusions_and_counters:
  assumes "sync cfg now src dst = Returned r d"
  shows "\<exists>sourceFiles d0 destFiles.
      getFilesRecursively src = Inr sourceFiles
    \<and> mkdir_recursive now dst [] = Inr d0
    \<and> getFilesRecursively d0 = Inr destFiles
    \<and> skipped r = length (filter (\<lambda>rel. copy_excluded cfg rel = Inr True) sourceFiles)
    \<and> deleted r = length (filter (\<lambda>rel. rel \<notin> set sourceFiles
          \<and> delete_excluded cfg rel = Inr False) destFiles)
    \<and> copied r \<le> length (filter (\<lambda>rel. copy_excluded cfg rel = Inr False) sourceFiles)
    \<and> (\<forall>rel c m a. rel \<in> set sourceFiles \<and> copy_excluded cfg rel = Inr True
          \<and> lookup dst rel = Inr (File c m a)
          \<longrightarrow> lookup d rel = Inr (File c m a))
    \<and> (\<forall>rel c m a. rel \<notin> set sourceFiles \<and> delete_excluded cfg rel = Inr True
          \<and> lookup dst rel = Inr (File c m a)
          \<longrightarrow> lookup d rel = Inr (File c m a))
    \<and> (\<forall>rel rest t cc sc. copy_excluded cfg rel = Inr True
          \<longrightarrow> copy_loop cfg now src (rel # rest) t cc sc
              = copy_loop cfg now src rest t cc (Suc sc))
    \<and> (\<forall>rel rest t dc. rel \<notin> set sourceFiles \<and> delete_excluded cfg rel = Inr True
          \<longrightarrow> delete_loop cfg sourceFiles (rel # rest) t dc
              = delete_loop cfg sourceFiles rest t dc)"
proof -
  from assms obtain n d0 sourceFiles destFiles cc sc d1 dc d2 where
    src: "src = Some n" and
    mk: "mkdir_recursive now dst [] = Inr d0" and
    sf: "getFilesRecursively src = Inr sourceFiles" and
    df: "getFilesRecursively d0 = Inr destFiles" and
    cl: "copy_loop cfg now src sourceFiles d0 0 0 = Returned (cc, sc) d1" and
    dl: "delete_loop cfg sourceFiles destFiles d1 0 = Returned dc d2" and
    cu: "cleanupEmptyDirectories d2 src = Inr d" and
    r: "r = \<lparr>copied = cc, deleted = dc, skipped = sc\<rparr>"
    by (rule sync_ReturnedE)
  from cu obtain ds where d: "d = foldl (cleanup_directory src) d2 (sort_deepest_first ds)"
    by (auto simp: cleanupEmptyDirectories_def split: sum.splits)
  have kept: "lookup d rel = Inr (File c m a)"
    if "lookup dst rel = Inr (File c m a)"
      and "rel \<in> set sourceFiles \<and> copy_excluded cfg rel = Inr True
        \<or> rel \<notin> set sourceFiles \<and> delete_excluded cfg rel = Inr True" for rel c m a
  proof -
    have "lookup d0 rel = Inr (File c m a)" using mkdir_file [OF mk that(1)] .
    then have "lookup d1 rel = Inr (File c m a)"
      using copy_loop_file_kept [OF cl] that(2) by blast
    then have "lookup d2 rel = Inr (File c m a)"
      using delete_loop_file_kept [OF dl] that(2) by blast
    then show ?thesis unfolding d by (rule cleanup_fold_file_kept)
  qed
  have "skipped r = length (filter (\<lambda>rel. copy_excluded cfg rel = Inr True) sourceFiles)"
    using copy_loop_skipped [OF cl] r by simp
  moreover have "deleted r = length (filter (\<lambda>rel. rel \<notin> set sourceFiles
      \<and> delete_excluded cfg rel = Inr False) destFiles)"
    using delete_loop_count [OF dl] r by simp
  moreover have "copied r \<le> length (filter (\<lambda>rel. copy_excluded cfg rel = Inr False) sourceFiles)"
    using copy_loop_copied [OF cl] r by simp
  moreover have "\<forall>rel rest t cc sc. copy_excluded cfg rel = Inr True
      \<longrightarrow> copy_loop cfg now src (rel # rest) t cc sc = copy_loop cfg now src rest t cc (Suc sc)"
    by (simp add: copy_excluded_def)
  moreover have "\<forall>rel rest t dc. rel \<notin> set sourceFiles \<and> delete_excluded cfg rel = Inr True
      \<longrightarrow> delete_loop cfg sourceFiles (rel # rest) t dc = delete_loop cfg sourceFiles rest t dc"
    by (simp add: delete_excluded_def)
  ultimately show ?thesis
    using sf mk df kept by blast
qed


theorem exclusions_and_counters_witness:
  "sync \<lparr>copyExclusions = [''*.log''], deleteExclusions = [''config.json''], verbose = False\<rparr> 100
     (Some (Dir True st0 [(''keep.txt'', File ''new'' 5 5), (''skip.log'', File ''src'' 6 6)]))
     (Some (Dir True st0 [(''skip.log'', File ''DIFFERENT'' 1 1), (''config.json'', File ''cfg'' 2 2),
        (''delete.txt'', File ''x'' 3 3)]))
   = Returned \<lparr>copied = 1, deleted = 1, skipped = 1\<rparr>
       (Some (Dir True st0 [(''skip.log'', File ''DIFFERENT'' 1 1), (''config.json'', File ''cfg'' 2 2),
          (''keep.txt'', File ''new'' 5 5)]))
   \<and> (\<exists>sourceFiles.
        getFilesRecursively
          (Some (Dir True st0 [(''keep.txt'', File ''new'' 5 5), (''skip.log'', File ''src'' 6 6)]))
        = Inr sourceFiles
        \<and> 1 = length (filter (\<lambda>rel. copy_excluded
            \<lparr>copyExclusions = [''*.log''], deleteExclusions = [''config.json''], verbose = False\<rparr> rel
              = Inr True) sourceFiles))"
  (is "?run \<and> ?counted")
proof -
  have run: ?run by code_simp
  from exclusions_and_counters [OF run] have ?counted by auto
  with run show ?thesis by simp
qed






end
